theory Spec2Isabelle
  imports
    Complex_Main
    "HOL-Library.Multiset"
    "HOL-Library.Product_Lexorder"
    "HOL-Library.List_Lexorder"
    "HOL-Library.Char_ord"
    "HOL-Library.AList"
begin

section \<open>Nearest-neighbour ordering\<close>

datatype py_error = TypeError | ValueError | OverflowError

text \<open>
  The code computes with Python floats. Their operations are parameters of the model:
  subtraction and addition (which round, and may give an infinity or a nan), \<open>x ** 2\<close>
  (which rounds, or raises \<open>OverflowError\<close>: the value \<open>None\<close>), and the comparisons \<open><\<close> and
  \<open>==\<close>. The type \<open>'f\<close> is the type of the float values.
\<close>

record 'f float_ops =
  f_sub :: "'f \<Rightarrow> 'f \<Rightarrow> 'f"
  f_add :: "'f \<Rightarrow> 'f \<Rightarrow> 'f"
  f_sq :: "'f \<Rightarrow> 'f option"
  f_lt :: "'f \<Rightarrow> 'f \<Rightarrow> bool"
  f_eq :: "'f \<Rightarrow> 'f \<Rightarrow> bool"

type_synonym 'f point = "'f \<times> 'f"

definition d2 :: "'f float_ops \<Rightarrow> 'f point \<Rightarrow> 'f point \<Rightarrow> 'f option" where
  "d2 F a b =
     (case f_sq F (f_sub F (fst a) (fst b)) of
        None \<Rightarrow> None
      | Some x \<Rightarrow>
        (case f_sq F (f_sub F (snd a) (snd b)) of
           None \<Rightarrow> None
         | Some y \<Rightarrow> Some (f_add F x y)))"

text \<open>\<open>min(xs, key=key)\<close>: the first element whose key no later key is less than.\<close>

fun min_key_from :: "('k \<Rightarrow> 'k \<Rightarrow> bool) \<Rightarrow> ('a \<Rightarrow> 'k) \<Rightarrow> 'a \<Rightarrow> 'a list \<Rightarrow> 'a" where
  "min_key_from lt key best [] = best"
| "min_key_from lt key best (x # xs) =
     min_key_from lt key (if lt (key x) (key best) then x else best) xs"

text \<open>
  \<open><\<close> on pairs of floats: the first components that are not \<open>==\<close> decide, by \<open><\<close>.
\<close>

definition tuple_lt :: "'f float_ops \<Rightarrow> 'f \<times> 'f \<Rightarrow> 'f \<times> 'f \<Rightarrow> bool" where
  "tuple_lt F a b =
     (if \<not> f_eq F (fst a) (fst b) then f_lt F (fst a) (fst b)
      else if \<not> f_eq F (snd a) (snd b) then f_lt F (snd a) (snd b)
      else False)"

definition start_key :: "'f point \<Rightarrow> 'f \<times> 'f" where
  "start_key p = (snd p, fst p)"

definition min_start :: "'f float_ops \<Rightarrow> 'f point list \<Rightarrow> nat" where
  "min_start F points =
     min_key_from (tuple_lt F) (\<lambda>i. start_key (points ! i)) 0 [1..<length points]"

definition candidates :: "'f float_ops \<Rightarrow> 'f point list \<Rightarrow> bool list \<Rightarrow> nat \<Rightarrow> (nat \<times> 'f option) list" where
  "candidates F points used lst =
     [(i, d2 F (points ! lst) (points ! i)). i \<leftarrow> [0..<length points], \<not> used ! i]"

text \<open>The list comprehension raises as soon as one distance does.\<close>

fun computed :: "(nat \<times> 'f option) list \<Rightarrow> (nat \<times> 'f) list option" where
  "computed [] = Some []"
| "computed ((i, None) # cs) = None"
| "computed ((i, Some d) # cs) = map_option ((#) (i, d)) (computed cs)"

function nn_loop :: "'f float_ops \<Rightarrow> 'f point list \<Rightarrow> bool list \<Rightarrow> nat list \<Rightarrow> nat list option" where
  "nn_loop F points used order =
     (if length order < length points then
        (case computed (candidates F points used (last order)) of
           None \<Rightarrow> None
         | Some [] \<Rightarrow> Some order
         | Some (c # cs) \<Rightarrow>
             nn_loop F points (used[fst (min_key_from (f_lt F) snd c cs) := True])
               (order @ [fst (min_key_from (f_lt F) snd c cs)]))
      else Some order)"
  by pat_completeness auto
termination
  by (relation "measure (\<lambda>(F, points, used, order). length points - length order)") auto

declare nn_loop.simps [simp del]

definition nearest_neighbor_order ::
    "'f float_ops \<Rightarrow> 'f point list \<Rightarrow> int option \<Rightarrow> py_error + 'f point list" where
  "nearest_neighbor_order F points start_index =
     (if points = [] then Inr []
      else
        let n = length points;
            start = (case start_index of
                       None \<Rightarrow> min_start F points
                     | Some s \<Rightarrow> if 0 \<le> s \<and> s < int n then nat s else min_start F points)
        in (case nn_loop F points ((replicate n False)[start := True]) [start] of
              None \<Rightarrow> Inl OverflowError
            | Some order \<Rightarrow> Inr (map (\<lambda>i. points ! i) order)))"

text \<open>
  The loop invariant: the flags mark exactly the indices placed so far. \<open>greedy\<close>: every
  index placed after another has a computed distance to it that no index placed later
  (or not at all) undercuts.
\<close>

definition nn_inv :: "'f point list \<Rightarrow> bool list \<Rightarrow> nat list \<Rightarrow> bool" where
  "nn_inv points used order \<longleftrightarrow>
     length used = length points \<and> order \<noteq> [] \<and> distinct order \<and>
     set order \<subseteq> {..<length points} \<and>
     (\<forall>i<length points. used ! i \<longleftrightarrow> i \<in> set order)"

definition greedy :: "'f float_ops \<Rightarrow> 'f point list \<Rightarrow> nat list \<Rightarrow> bool" where
  "greedy F points order \<longleftrightarrow>
     (\<forall>k j. Suc k < length order \<and> j < length points \<and> j \<notin> set (take (Suc k) order) \<longrightarrow>
        (\<exists>dk dj. d2 F (points ! (order ! k)) (points ! (order ! Suc k)) = Some dk \<and>
                 d2 F (points ! (order ! k)) (points ! j) = Some dj \<and> \<not> f_lt F dj dk))"

text \<open>
  A comparison that is transitive and asymmetric, as \<open><\<close> is on floats. No distance between
  two of the points overflows. The squared Euclidean distance of the claim, over the reals.
\<close>

definition strict_order :: "('a \<Rightarrow> 'a \<Rightarrow> bool) \<Rightarrow> bool" where
  "strict_order lt \<longleftrightarrow> (\<forall>a b c. lt a b \<and> lt b c \<longrightarrow> lt a c) \<and> (\<forall>a b. lt a b \<longrightarrow> \<not> lt b a)"

definition no_overflow :: "'f float_ops \<Rightarrow> 'f point list \<Rightarrow> bool" where
  "no_overflow F points \<longleftrightarrow> list_all (\<lambda>a. list_all (\<lambda>b. d2 F a b \<noteq> None) points) points"

definition euclid2 :: "real \<times> real \<Rightarrow> real \<times> real \<Rightarrow> real" where
  "euclid2 a b = (fst a - fst b)\<^sup>2 + (snd a - snd b)\<^sup>2"

section \<open>Python values and the library functions the code calls\<close>

datatype pyval =
    PNone
  | PBool bool
  | PInt int
  | PFloat real
  | PStr string
  | PList "pyval list"
  | PTuple "pyval list"
  | PDict "(string \<times> pyval) list"

record pylib =
  json_loads :: "string \<Rightarrow> pyval option"
  literal_eval :: "string \<Rightarrow> pyval option"
  str_of :: "pyval \<Rightarrow> string"
  float_of_str :: "string \<Rightarrow> real option"
  format_6f :: "real \<Rightarrow> string"
  set_iter :: "string option list \<Rightarrow> string option list"

fun truthy :: "pyval \<Rightarrow> bool" where
  "truthy PNone = False"
| "truthy (PBool b) = b"
| "truthy (PInt i) = (i \<noteq> 0)"
| "truthy (PFloat x) = (x \<noteq> 0)"
| "truthy (PStr s) = (s \<noteq> [])"
| "truthy (PList xs) = (xs \<noteq> [])"
| "truthy (PTuple xs) = (xs \<noteq> [])"
| "truthy (PDict kvs) = (kvs \<noteq> [])"

definition py_or :: "pyval \<Rightarrow> pyval \<Rightarrow> pyval" where
  "py_or a b = (if truthy a then a else b)"

definition py_str :: "pylib \<Rightarrow> pyval \<Rightarrow> string" where
  "py_str L v = (case v of PStr s \<Rightarrow> s | _ \<Rightarrow> str_of L v)"

definition is_space :: "char \<Rightarrow> bool" where
  "is_space c \<longleftrightarrow>
     c \<in> {CHR 0x09, CHR 0x0A, CHR 0x0B, CHR 0x0C, CHR 0x0D, CHR 0x1C, CHR 0x1D, CHR 0x1E,
          CHR 0x1F, CHR 0x20, CHR 0x85, CHR 0xA0}"

definition strip_by :: "(char \<Rightarrow> bool) \<Rightarrow> string \<Rightarrow> string" where
  "strip_by P s = rev (dropWhile P (rev (dropWhile P s)))"

definition strip :: "string \<Rightarrow> string" where
  "strip s = strip_by is_space s"

definition strip_chars :: "string \<Rightarrow> string \<Rightarrow> string" where
  "strip_chars cs s = strip_by (\<lambda>c. c \<in> set cs) s"

fun split_on :: "char \<Rightarrow> string \<Rightarrow> string list" where
  "split_on sep [] = [[]]"
| "split_on sep (c # cs) =
     (if c = sep then [] # split_on sep cs
      else (case split_on sep cs of
              [] \<Rightarrow> [[c]]
            | p # ps \<Rightarrow> (c # p) # ps))"

definition is_word :: "char \<Rightarrow> bool" where
  "is_word c \<longleftrightarrow>
     (let n = (of_char c :: nat) in
        (65 \<le> n \<and> n \<le> 90) \<or> (97 \<le> n \<and> n \<le> 122) \<or> (48 \<le> n \<and> n \<le> 57) \<or> n = 95)"

function re_split :: "(char \<Rightarrow> bool) \<Rightarrow> string \<Rightarrow> string \<Rightarrow> string list" where
  "re_split sep cur [] = [rev cur]"
| "re_split sep cur (c # cs) =
     (if sep c then rev cur # re_split sep [] (dropWhile sep cs)
      else re_split sep (c # cur) cs)"
  by pat_completeness auto
termination
  by (relation "measure (\<lambda>(sep, cur, s). length s)")
     (auto simp: length_dropWhile_le less_Suc_eq_le)

definition hex_digit :: "nat \<Rightarrow> char" where
  "hex_digit n = ''0123456789abcdef'' ! (n mod 16)"

definition json_escape :: "char \<Rightarrow> string" where
  "json_escape c =
     (if c = CHR 0x22 then [CHR 0x5C, CHR 0x22]
      else if c = CHR 0x5C then [CHR 0x5C, CHR 0x5C]
      else if c = CHR 0x0A then [CHR 0x5C, CHR ''n'']
      else if c = CHR 0x0D then [CHR 0x5C, CHR ''r'']
      else if c = CHR 0x09 then [CHR 0x5C, CHR ''t'']
      else if c = CHR 0x08 then [CHR 0x5C, CHR ''b'']
      else if c = CHR 0x0C then [CHR 0x5C, CHR ''f'']
      else if (of_char c :: nat) < 32 \<or> 126 < (of_char c :: nat)
        then [CHR 0x5C, CHR ''u'', CHR ''0'', CHR ''0'',
              hex_digit ((of_char c :: nat) div 16), hex_digit (of_char c :: nat)]
      else [c])"

definition json_string :: "string \<Rightarrow> string" where
  "json_string s = [CHR 0x22] @ concat (map json_escape s) @ [CHR 0x22]"

fun join :: "string \<Rightarrow> string list \<Rightarrow> string" where
  "join sep [] = []"
| "join sep [x] = x"
| "join sep (x # y # ys) = x @ sep @ join sep (y # ys)"

definition json_dumps :: "string list \<Rightarrow> string" where
  "json_dumps xs = ''['' @ join '', '' (map json_string xs) @ '']''"

section \<open>The tolerant list parser\<close>

definition clean_tokens :: "pylib \<Rightarrow> pyval list \<Rightarrow> string list" where
  "clean_tokens L xs = [strip (py_str L x). x \<leftarrow> xs, strip (py_str L x) \<noteq> []]"

definition starts_bracket :: "string \<Rightarrow> bool" where
  "starts_bracket s = (case s of [] \<Rightarrow> False | c # _ \<Rightarrow> c = CHR ''['' \<or> c = CHR ''('')"

definition flatten_item :: "pylib \<Rightarrow> pyval \<Rightarrow> pyval list" where
  "flatten_item L x =
     (case x of
        PStr s \<Rightarrow>
          if starts_bracket (strip s) then
            (case literal_eval L s of
               Some (PList ys) \<Rightarrow> ys
             | Some (PTuple ys) \<Rightarrow> ys
             | _ \<Rightarrow> [x])
          else [x]
      | _ \<Rightarrow> [x])"

definition comma_fallback :: "string \<Rightarrow> string list" where
  "comma_fallback s =
     [p \<leftarrow> map (\<lambda>p. strip_chars [CHR 0x27, CHR 0x22] (strip p))
              (split_on CHR '','' (strip_chars ''[]()'' s)). p \<noteq> []]"

definition parse_list :: "pylib \<Rightarrow> pyval \<Rightarrow> string list" where
  "parse_list L v =
     (case v of
        PNone \<Rightarrow> []
      | PList xs \<Rightarrow> clean_tokens L xs
      | PStr raw \<Rightarrow>
          (let s = strip raw in
           if s = [] then []
           else
             (case json_loads L s of
                Some (PList j) \<Rightarrow> clean_tokens L (concat (map (flatten_item L) j))
              | _ \<Rightarrow>
                (case literal_eval L s of
                   Some (PList l) \<Rightarrow> clean_tokens L l
                 | Some (PTuple l) \<Rightarrow> clean_tokens L l
                 | _ \<Rightarrow> comma_fallback s)))
      | _ \<Rightarrow> [])"

section \<open>Rows and the stop--route mapping resolver\<close>

text \<open>
  A row is a dictionary as \<open>csv.DictReader\<close> builds it: its keys are the header names, and
  the key \<open>None\<close> when the line has more cells than the header. \<open>row_get\<close> is
  \<open>r.get(k)\<close> for a string \<open>k\<close>; \<open>obj_get\<close> is the same on a decoded JSON object.
\<close>

type_synonym row = "(string option \<times> pyval) list"

definition row_get :: "row \<Rightarrow> string \<Rightarrow> pyval" where
  "row_get r k = (case map_of r (Some k) of None \<Rightarrow> PNone | Some v \<Rightarrow> v)"

definition obj_get :: "(string \<times> pyval) list \<Rightarrow> string \<Rightarrow> pyval" where
  "obj_get kvs k = (case map_of kvs k of None \<Rightarrow> PNone | Some v \<Rightarrow> v)"

definition stop_row_id :: "pylib \<Rightarrow> row \<Rightarrow> string" where
  "stop_row_id L r =
     strip (py_str L (py_or (py_or (row_get r ''stop_id'') (row_get r ''id'')) (PStr [])))"

definition route_row_id :: "pylib \<Rightarrow> row \<Rightarrow> string" where
  "route_row_id L r = strip (py_str L (py_or (row_get r ''route_id'') (PStr [])))"

type_synonym setmap = "string \<Rightarrow> string list option"

definition set_lookup :: "setmap \<Rightarrow> string \<Rightarrow> string list" where
  "set_lookup m k = (case m k of None \<Rightarrow> [] | Some xs \<Rightarrow> xs)"

definition add_edge :: "setmap \<Rightarrow> string \<Rightarrow> string \<Rightarrow> setmap" where
  "add_edge m k v = m(k \<mapsto> List.insert v (set_lookup m k))"

definition stop_row_edges :: "pylib \<Rightarrow> row \<Rightarrow> setmap \<times> setmap \<Rightarrow> setmap \<times> setmap" where
  "stop_row_edges L r st =
     (let sid = stop_row_id L r in
      if sid = [] then st
      else fold (\<lambda>rid (s2r, r2s).
                   let rid_s = strip rid in
                   if rid_s = [] then (s2r, r2s)
                   else (add_edge s2r sid rid_s, add_edge r2s rid_s sid))
             (parse_list L (py_or (row_get r ''routes'') (PStr ''[]''))) st)"

definition route_row_edges :: "pylib \<Rightarrow> row \<Rightarrow> setmap \<times> setmap \<Rightarrow> setmap \<times> setmap" where
  "route_row_edges L r st =
     (let rid = route_row_id L r in
      if rid = [] then st
      else fold (\<lambda>sid (s2r, r2s).
                   let sid_s = strip sid in
                   if sid_s = [] then (s2r, r2s)
                   else (add_edge s2r sid_s rid, add_edge r2s rid sid_s))
             (parse_list L (py_or (row_get r ''stops'') (PStr ''[]''))) st)"

definition load_stop_route_mappings :: "pylib \<Rightarrow> row list \<Rightarrow> row list \<Rightarrow> setmap \<times> setmap" where
  "load_stop_route_mappings L bs_rows rt_rows =
     fold (route_row_edges L) rt_rows (fold (stop_row_edges L) bs_rows (Map.empty, Map.empty))"

text \<open>
  The edges each side of the data declares, in the words of the specification: a stop row
  with a non-blank id declares an edge to every non-blank route id in its parsed
  \<open>routes\<close> field, and a route row declares one to every stop id in its parsed \<open>stops\<close> field.
\<close>

definition stop_side_edges :: "pylib \<Rightarrow> row list \<Rightarrow> (string \<times> string) set" where
  "stop_side_edges L bs_rows =
     {(stop_row_id L r, strip rid) | r rid.
        r \<in> set bs_rows \<and> stop_row_id L r \<noteq> [] \<and>
        rid \<in> set (parse_list L (py_or (row_get r ''routes'') (PStr ''[]''))) \<and> strip rid \<noteq> []}"

definition route_side_edges :: "pylib \<Rightarrow> row list \<Rightarrow> (string \<times> string) set" where
  "route_side_edges L rt_rows =
     {(strip sid, route_row_id L r) | r sid.
        r \<in> set rt_rows \<and> route_row_id L r \<noteq> [] \<and>
        sid \<in> set (parse_list L (py_or (row_get r ''stops'') (PStr ''[]''))) \<and> strip sid \<noteq> []}"

text \<open>
  Both output mappings describe one relation \<open>D\<close> between stop ids and route ids.
\<close>

definition rel_of :: "setmap \<times> setmap \<Rightarrow> (string \<times> string) set \<Rightarrow> bool" where
  "rel_of st D \<longleftrightarrow>
     (\<forall>s r. (r \<in> set (set_lookup (fst st) s) \<longleftrightarrow> (s, r) \<in> D) \<and>
            (s \<in> set (set_lookup (snd st) r) \<longleftrightarrow> (s, r) \<in> D))"

definition unquote_char :: "char \<Rightarrow> char" where
  "unquote_char c =
     (if c \<in> {CHR ''['', CHR '']'', CHR ''('', CHR '')'', CHR 0x22, CHR 0x27} then CHR '' '' else c)"

definition scan_tokens :: "pylib \<Rightarrow> pyval \<Rightarrow> string list" where
  "scan_tokens L raw =
     (case raw of
        PList xs \<Rightarrow>
          [strip_chars [CHR 0x27, CHR 0x22] (py_str L x). x \<leftarrow> xs, strip (py_str L x) \<noteq> []]
      | _ \<Rightarrow>
          [t \<leftarrow> re_split (\<lambda>c. \<not> is_word c) []
                  (map unquote_char (py_str L (py_or raw (PStr [])))). t \<noteq> []])"

definition collect_route_stop_ids ::
    "pylib \<Rightarrow> string \<Rightarrow> row \<Rightarrow> row list \<Rightarrow> setmap \<Rightarrow> string list" where
  "collect_route_stop_ids L rid route_row stops_rows route_to_stops =
     (let base_list = parse_list L (py_or (row_get route_row ''stops'') (PStr ''[]''));
          ids = [strip x. x \<leftarrow> base_list, strip x \<noteq> []];
          extra = [stop_row_id L srow. srow \<leftarrow> stops_rows, stop_row_id L srow \<noteq> [],
                     rid \<noteq> [] \<and> rid \<in> set (scan_tokens L (row_get srow ''routes''))]
      in sort (remdups (ids @ set_lookup route_to_stops rid @ extra)))"

section \<open>The record store and the import pipeline\<close>

record csv_file =
  header :: "string list"
  lines :: "string list list"

text \<open>
  \<open>csv.DictReader\<close>: the cells are stored under the header names in order (a repeated name
  keeps its last cell); missing cells are \<open>None\<close>; the cells beyond the header are stored
  as a list under the key \<open>None\<close>; lines without cells are skipped.
\<close>

definition dict_of_line :: "string list \<Rightarrow> string list \<Rightarrow> row" where
  "dict_of_line hdr cells =
     (let d = fold (\<lambda>kv d. AList.update (fst kv) (snd kv) d)
                (zip (map Some hdr) (map PStr cells @ replicate (length hdr - length cells) PNone)) []
      in if length hdr < length cells
         then AList.update None (PList (map PStr (drop (length hdr) cells))) d
         else d)"

definition read_csv :: "csv_file option \<Rightarrow> row list" where
  "read_csv fs =
     (case fs of
        None \<Rightarrow> []
      | Some f \<Rightarrow> [dict_of_line (header f) cells. cells \<leftarrow> lines f, cells \<noteq> []])"


definition cell_text :: "pylib \<Rightarrow> pyval \<Rightarrow> string" where
  "cell_text L v = (case v of PNone \<Rightarrow> [] | PStr s \<Rightarrow> s | _ \<Rightarrow> str_of L v)"

text \<open>
  \<open>csv.DictWriter\<close> writes the field names as the header line and, for every row, the
  cell \<open>r.get(k, "")\<close> of every field name \<open>k\<close>; \<open>None\<close> is written as the empty string.
\<close>

definition key_text :: "string option \<Rightarrow> string" where
  "key_text k = (case k of None \<Rightarrow> [] | Some s \<Rightarrow> s)"

definition write_csv :: "pylib \<Rightarrow> row list \<Rightarrow> string option list \<Rightarrow> csv_file" where
  "write_csv L rows fieldnames =
     \<lparr> header = map key_text fieldnames,
       lines = [[cell_text L (case map_of r k of None \<Rightarrow> PStr [] | Some v \<Rightarrow> v). k \<leftarrow> fieldnames].
                r \<leftarrow> rows] \<rparr>"

definition BUS_STOPS_FIELDS :: "string list" where
  "BUS_STOPS_FIELDS = [''stop_id'', ''name'', ''latitude'', ''longitude'', ''routes'', ''accessibility'']"

definition keys_union :: "row list \<Rightarrow> string option list" where
  "keys_union rows = remdups (concat (map (map fst) rows))"


datatype http_error =
    Conflict string
  | NotFound string
  | BadRequest string





definition is_id_char :: "char \<Rightarrow> bool" where
  "is_id_char c \<longleftrightarrow> is_word c \<or> c = CHR ''-''"

definition validate_stop_id :: "pylib \<Rightarrow> pyval \<Rightarrow> string + string" where
  "validate_stop_id L v =
     (if \<not> truthy v then Inl ''stop_id is required.''
      else
        (let s = strip (py_str L v) in
         if s = [] then Inl ''stop_id cannot be empty.''
         else if 50 < length s then Inl ''stop_id too long. Maximum 50 characters.''
         else if \<not> list_all is_id_char s
           then Inl ''stop_id can only contain letters, numbers, hyphens, and underscores.''
         else Inr s))"

definition validate_name :: "pylib \<Rightarrow> pyval \<Rightarrow> string \<Rightarrow> string + string" where
  "validate_name L v field_name =
     (if \<not> truthy v then Inl (field_name @ '' is required.'')
      else
        (let s = strip (py_str L v) in
         if s = [] then Inl (field_name @ '' cannot be empty.'')
         else if 200 < length s then Inl (field_name @ '' too long. Maximum 200 characters.'')
         else Inr s))"

text \<open>
  \<open>float(v)\<close> as the validators use it: a string converts through the library, an integer
  converts unless it is too large for a double (\<open>OverflowError\<close>), everything else but a
  float or a boolean is a \<open>TypeError\<close>. The values are read as reals; infinities and nans
  are outside this part of the model.
\<close>

datatype float_error = NotNumeric | TooLarge

definition py_float :: "pylib \<Rightarrow> pyval \<Rightarrow> float_error + real" where
  "py_float L v =
     (case v of
        PStr s \<Rightarrow> (case float_of_str L s of None \<Rightarrow> Inl NotNumeric | Some x \<Rightarrow> Inr x)
      | PInt i \<Rightarrow> if 2 ^ 1024 - 2 ^ 970 \<le> \<bar>i\<bar> then Inl TooLarge else Inr (of_int i)
      | PFloat x \<Rightarrow> Inr x
      | PBool b \<Rightarrow> Inr (if b then 1 else 0)
      | _ \<Rightarrow> Inl NotNumeric)"

text \<open>
  \<open>validate_coordinates\<close> raises an \<open>HTTPException\<close> with a detail (\<open>Rejected\<close>), or lets the
  \<open>OverflowError\<close> of \<open>float\<close> through (\<open>Overflowed\<close>), which its \<open>except\<close> clause does not catch.
\<close>

datatype coord_error = Rejected string | Overflowed

definition validate_coordinates :: "pylib \<Rightarrow> pyval \<Rightarrow> pyval \<Rightarrow> coord_error + (real \<times> real)" where
  "validate_coordinates L lat lon =
     (case py_float L lat of
        Inl NotNumeric \<Rightarrow> Inl (Rejected ''Invalid coordinate format. Must be numeric.'')
      | Inl TooLarge \<Rightarrow> Inl Overflowed
      | Inr lat_f \<Rightarrow>
        (case py_float L lon of
           Inl NotNumeric \<Rightarrow> Inl (Rejected ''Invalid coordinate format. Must be numeric.'')
         | Inl TooLarge \<Rightarrow> Inl Overflowed
         | Inr lon_f \<Rightarrow>
             if \<not> (- 90 \<le> lat_f \<and> lat_f \<le> 90)
               then Inl (Rejected ''Invalid latitude. Must be between -90 and 90.'')
             else if \<not> (- 180 \<le> lon_f \<and> lon_f \<le> 180)
               then Inl (Rejected ''Invalid longitude. Must be between -180 and 180.'')
             else Inr (lat_f, lon_f)))"

definition lower_char :: "char \<Rightarrow> char" where
  "lower_char c =
     (let n = (of_char c :: nat) in
      if (65 \<le> n \<and> n \<le> 90) \<or> (192 \<le> n \<and> n \<le> 222 \<and> n \<noteq> 215) then char_of (n + 32) else c)"

definition norm_bool :: "pyval \<Rightarrow> bool \<Rightarrow> bool" where
  "norm_bool v dflt =
     (case v of
        PBool b \<Rightarrow> b
      | PInt i \<Rightarrow> i \<noteq> 0
      | PFloat x \<Rightarrow> x \<noteq> 0
      | PStr s \<Rightarrow> map lower_char (strip s) \<in> {''true'', ''1'', ''yes'', ''y''}
      | _ \<Rightarrow> dflt)"

text \<open>
  The messages appended to \<open>validation_errors\<close>, by the row number they carry: not an
  object, missing latitude or longitude (with the stop id), the detail of an
  \<open>HTTPException\<close>, and the text of any other exception.
\<close>

datatype row_error =
    RowNotObject nat
  | RowMissingLatLon nat string
  | RowRejected nat string
  | RowUnexpected nat string

definition item_routes :: "pylib \<Rightarrow> pyval \<Rightarrow> string list" where
  "item_routes L routes =
     (case routes of
        PStr s \<Rightarrow> parse_list L (PStr s)
      | PList xs \<Rightarrow> map (py_str L) xs
      | _ \<Rightarrow> [])"

definition process_item :: "pylib \<Rightarrow> nat \<Rightarrow> pyval \<Rightarrow> row_error + (string \<times> row)" where
  "process_item L i obj =
     (case obj of
        PDict kvs \<Rightarrow>
          (case validate_stop_id L (py_or (obj_get kvs ''stop_id'') (obj_get kvs ''id'')) of
             Inl d \<Rightarrow> Inl (RowRejected (i + 1) d)
           | Inr sid \<Rightarrow>
             (case validate_name L (py_or (obj_get kvs ''name'') (obj_get kvs ''stop_name''))
                     ''stop name'' of
                Inl d \<Rightarrow> Inl (RowRejected (i + 1) d)
              | Inr name \<Rightarrow>
                (let lat_raw = py_or (py_or (obj_get kvs ''latitude'') (obj_get kvs ''lat''))
                                 (obj_get kvs ''stop_lat'');
                     lon_raw = py_or (py_or (obj_get kvs ''longitude'') (obj_get kvs ''lon''))
                                 (obj_get kvs ''stop_lon'')
                 in if lat_raw = PNone \<or> lon_raw = PNone then Inl (RowMissingLatLon (i + 1) sid)
                    else
                      (case validate_coordinates L lat_raw lon_raw of
                         Inl (Rejected d) \<Rightarrow> Inl (RowRejected (i + 1) d)
                       | Inl Overflowed \<Rightarrow>
                           Inl (RowUnexpected (i + 1) ''int too large to convert to float'')
                       | Inr (lat, lon) \<Rightarrow>
                           Inr (sid,
                             [(Some ''stop_id'', PStr sid),
                              (Some ''name'', PStr name),
                              (Some ''latitude'', PStr (format_6f L lat)),
                              (Some ''longitude'', PStr (format_6f L lon)),
                              (Some ''routes'', PStr (json_dumps (item_routes L (obj_get kvs ''routes'')))),
                              (Some ''accessibility'',
                                 PStr (if norm_bool (obj_get kvs ''accessibility'') True
                                       then ''True'' else ''False''))])))))
      | _ \<Rightarrow> Inl (RowNotObject (i + 1)))"

type_synonym import_state = "row_error list \<times> nat \<times> (string \<times> row) list"

fun import_loop :: "pylib \<Rightarrow> nat \<Rightarrow> pyval list \<Rightarrow> import_state \<Rightarrow> import_state" where
  "import_loop L i [] st = st"
| "import_loop L i (obj # rest) (errs, cnt, keep) =
     import_loop L (Suc i) rest
       (case process_item L i obj of
          Inl e \<Rightarrow> (errs @ [e], cnt, keep)
        | Inr (sid, row) \<Rightarrow> (errs, Suc cnt, AList.update sid row keep))"

definition existing_pairs :: "pylib \<Rightarrow> row list \<Rightarrow> (string \<times> row) list" where
  "existing_pairs L existing =
     [(py_str L (row_get r ''stop_id''), r). r \<leftarrow> existing, truthy (row_get r ''stop_id'')]"

definition initial_keep :: "pylib \<Rightarrow> row list \<Rightarrow> (string \<times> row) list" where
  "initial_keep L existing =
     fold (\<lambda>p d. AList.update (fst p) (snd p) d) (existing_pairs L existing) []"

text \<open>
  The per-row errors and the validated rows of a batch, in batch order: what the loop of
  \<open>import_stops\<close> appends to \<open>validation_errors\<close> and what it stores into \<open>keep\<close>.
\<close>

fun item_errors :: "pylib \<Rightarrow> nat \<Rightarrow> pyval list \<Rightarrow> row_error list" where
  "item_errors L i [] = []"
| "item_errors L i (obj # rest) =
     (case process_item L i obj of Inl e \<Rightarrow> [e] | Inr p \<Rightarrow> []) @ item_errors L (Suc i) rest"

fun valid_items :: "pylib \<Rightarrow> nat \<Rightarrow> pyval list \<Rightarrow> (string \<times> row) list" where
  "valid_items L i [] = []"
| "valid_items L i (obj # rest) =
     (case process_item L i obj of Inl e \<Rightarrow> [] | Inr p \<Rightarrow> [p]) @ valid_items L (Suc i) rest"

text \<open>
  The \<open>keep\<close> dictionary after the loop: the existing rows, then the validated rows of the
  batch, stored under their ids in that order.
\<close>

definition final_keep :: "pylib \<Rightarrow> row list \<Rightarrow> pyval list \<Rightarrow> (string \<times> row) list" where
  "final_keep L existing data =
     fold (\<lambda>p d. AList.update (fst p) (snd p) d) (valid_items L 0 data) (initial_keep L existing)"

datatype import_error =
    NotAList string
  | BadMode string
  | TooManyErrors nat "row_error list"

record import_result =
  imported :: nat
  saved :: nat
  processed :: nat
  warnings :: "row_error list option"

text \<open>
  \<open>import_stops\<close> from the point where \<open>data\<close> is known to be a list: \<open>mode\<close> is the local
  variable, already lower-cased. \<open>import_payload\<close> below is the step before, on the decoded
  request body.
\<close>

definition import_stops ::
    "pylib \<Rightarrow> csv_file option \<Rightarrow> string \<Rightarrow> pyval list
      \<Rightarrow> csv_file option \<times> (import_error + import_result)" where
  "import_stops L fs mode data =
     (if mode \<noteq> ''replace'' \<and> mode \<noteq> ''append''
      then (fs, Inl (BadMode (''Mode must be 'replace' or 'append'' @ [CHR 0x27])))
      else
        (let existing = (if mode = ''append'' then read_csv fs else []);
             st = import_loop L 0 data ([], 0, initial_keep L existing);
             validation_errors = fst st;
             rows = map snd (snd (snd st))
         in if validation_errors \<noteq> [] \<and> length data < 2 * length validation_errors
            then (fs, Inl (TooManyErrors (length validation_errors) (take 5 validation_errors)))
            else
              (Some (write_csv L rows
                  (if existing = [] then map Some BUS_STOPS_FIELDS
                   else set_iter L (remdups (map Some BUS_STOPS_FIELDS @ keys_union existing)))),
               Inr \<lparr> imported = length data, saved = length rows, processed = fst (snd st),
                     warnings = (if validation_errors \<noteq> [] then Some (take 10 validation_errors)
                                 else None) \<rparr>)))"

definition import_payload ::
    "pylib \<Rightarrow> csv_file option \<Rightarrow> pyval \<Rightarrow> csv_file option \<times> (import_error + import_result)" where
  "import_payload L fs payload =
     (let data = (case payload of
                    PList xs \<Rightarrow> PList xs
                  | PDict kvs \<Rightarrow> obj_get kvs ''data''
                  | _ \<Rightarrow> PNone);
          mode = (case payload of
                    PDict kvs \<Rightarrow>
                      map lower_char (py_str L (py_or (obj_get kvs ''mode'') (PStr ''replace'')))
                  | _ \<Rightarrow> ''replace'')
      in (case data of
            PList xs \<Rightarrow> import_stops L fs mode xs
          | _ \<Rightarrow> (fs, Inl (NotAList ''Expected a list of rows to import''))))"

section \<open>Concurrent writers\<close>

text \<open>
  \<open>_write_csv\<close> as a sequence of atomic steps of one writer (a thread that called it with
  a path and the file to write): take the one global lock \<open>_csv_lock\<close> (possible only when
  it is free), open the temporary file \<open>path + ".tmp"\<close> for writing (it is then empty),
  write the header and the lines one at a time, replace the target by the temporary
  file (\<open>os.replace\<close>, taken to be atomic and to succeed), release the lock. A file is the
  list of its lines, the header first. \<open>fire\<close> is one step of writer \<open>i\<close>, \<open>None\<close> when the
  writer cannot move; \<open>run\<close> follows a schedule, in which a writer that cannot move waits.
  A reader reads the file at a path in one step.
\<close>

datatype pc = Idle | Locked | Writing nat | Releasing | Finished

record world =
  lock :: "nat option"
  files :: "string \<Rightarrow> string list list option"
  pcs :: "pc list"

definition tmp_path :: "string \<Rightarrow> string" where
  "tmp_path path = path @ ''.tmp''"

definition file_lines :: "csv_file \<Rightarrow> string list list" where
  "file_lines f = header f # lines f"

definition fire :: "(string \<times> csv_file) list \<Rightarrow> world \<Rightarrow> nat \<Rightarrow> world option" where
  "fire jobs w i =
     (if i < length jobs \<and> i < length (pcs w) then
        (let path = fst (jobs ! i); content = file_lines (snd (jobs ! i)) in
         case pcs w ! i of
           Idle \<Rightarrow>
             if lock w = None
             then Some (w\<lparr> lock := Some i, pcs := (pcs w)[i := Locked] \<rparr>)
             else None
         | Locked \<Rightarrow>
             Some (w\<lparr> files := (files w)(tmp_path path \<mapsto> []),
                      pcs := (pcs w)[i := Writing 0] \<rparr>)
         | Writing k \<Rightarrow>
             if k < length content
             then Some (w\<lparr> files := (files w)(tmp_path path \<mapsto> take (Suc k) content),
                           pcs := (pcs w)[i := Writing (Suc k)] \<rparr>)
             else Some (w\<lparr> files := ((files w)(path := files w (tmp_path path)))
                                       (tmp_path path := None),
                           pcs := (pcs w)[i := Releasing] \<rparr>)
         | Releasing \<Rightarrow> Some (w\<lparr> lock := None, pcs := (pcs w)[i := Finished] \<rparr>)
         | Finished \<Rightarrow> None)
      else None)"

definition run :: "(string \<times> csv_file) list \<Rightarrow> world \<Rightarrow> nat list \<Rightarrow> world" where
  "run jobs w sched = fold (\<lambda>i w. case fire jobs w i of None \<Rightarrow> w | Some w' \<Rightarrow> w') sched w"

definition init :: "(string \<times> csv_file) list \<Rightarrow> (string \<Rightarrow> string list list option) \<Rightarrow> world" where
  "init jobs fs = \<lparr> lock = None, files = fs, pcs = replicate (length jobs) Idle \<rparr>"

definition in_write :: "pc \<Rightarrow> bool" where
  "in_write p = (case p of Idle \<Rightarrow> False | Finished \<Rightarrow> False | _ \<Rightarrow> True)"

text \<open>
  The invariant of the runs: the lock is held exactly by the writer inside the locked
  region; a writer that has written \<open>k\<close> lines finds them in its temporary file; and a
  path that is no writer's temporary path holds what it held at the start or the whole
  file of a writer to that path.
\<close>

definition lock_inv :: "(string \<times> csv_file) list \<Rightarrow> world \<Rightarrow> bool" where
  "lock_inv jobs w \<longleftrightarrow>
     length (pcs w) = length jobs \<and>
     (\<forall>i < length jobs. in_write (pcs w ! i) \<longleftrightarrow> lock w = Some i) \<and>
     (\<forall>i < length jobs. \<forall>k. pcs w ! i = Writing k \<longrightarrow>
        k \<le> length (file_lines (snd (jobs ! i))) \<and>
        files w (tmp_path (fst (jobs ! i))) = Some (take k (file_lines (snd (jobs ! i)))))"

definition whole_files ::
    "(string \<times> csv_file) list \<Rightarrow> (string \<Rightarrow> string list list option) \<Rightarrow> world \<Rightarrow> bool" where
  "whole_files jobs fs w \<longleftrightarrow>
     (\<forall>p. (\<forall>job \<in> set jobs. p \<noteq> tmp_path (fst job)) \<longrightarrow>
        files w p = fs p \<or>
        (\<exists>job \<in> set jobs. fst job = p \<and> files w p = Some (file_lines (snd job))))"

section \<open>Library values for the worked examples\<close>

text \<open>
  The library functions at the arguments the worked examples consult, with the values CPython
  returns there (\<open>None\<close> where the call raises). No example consults the table elsewhere.
  The iteration order of a set of strings is not fixed by the language; the table takes the
  reverse of the insertion order.
\<close>

definition lib_table :: pylib where
  \<open>lib_table =
     \<lparr> json_loads = (\<lambda>s.
          if s = ''[]'' then Some (PList [])
          else if s = ''["a", "b"]'' then Some (PList [PStr ''a'', PStr ''b''])
          else if s = ''["['42']"]'' then Some (PList [PStr ''['42']''])
          else if s = ''[[12.5, 77.0]]'' then Some (PList [PList [PFloat (25 / 2), PFloat 77]])
          else None),
       literal_eval = (\<lambda>s.
          if s = ''['42']'' then Some (PList [PStr ''42''])
          else None),
       str_of = (\<lambda>v.
          if v = PNone then ''None''
          else if v = PList [PStr ''stray''] then ''['stray']''
          else []),
       float_of_str = (\<lambda>s.
          if s = ''12.0'' then Some 12
          else if s = ''77.0'' then Some 77
          else if s = ''77.1'' then Some (771 / 10)
          else None),
       format_6f = (\<lambda>x.
          if x = 12 then ''12.000000''
          else if x = 13 then ''13.000000''
          else if x = 77 then ''77.000000''
          else []),
       set_iter = rev \<rparr>\<close>

definition stop_item :: "string \<Rightarrow> pyval" where
  "stop_item sid =
     PDict [(''stop_id'', PStr sid), (''name'', PStr ''Depot''),
            (''latitude'', PFloat 12), (''longitude'', PFloat 77)]"

definition stop_line :: "string \<Rightarrow> string list" where
  "stop_line sid = [sid, ''Depot'', ''12.000000'', ''77.000000'', ''[]'', ''True'']"




text \<open>
  Double arithmetic at the arguments of the examples, on the reals that the doubles denote:
  the differences and the squares there are exact, the sum of 1 and 2 to the power -60 rounds to 1, and the
  square of 2 to the power 700 overflows. No example consults the table elsewhere.
\<close>

definition double_ops :: "real float_ops" where
  "double_ops =
     \<lparr> f_sub = (\<lambda>a b. a - b),
       f_add = (\<lambda>a b. if a + b = 1 + 1 / 2 ^ 60 then 1 else a + b),
       f_sq = (\<lambda>a. if 2 ^ 512 \<le> \<bar>a\<bar> then None else Some (a * a)),
       f_lt = (\<lambda>a b. a < b),
       f_eq = (\<lambda>a b. a = b) \<rparr>"

definition two_jobs :: "(string \<times> csv_file) list" where
  "two_jobs =
     [(''BusStops.csv'', \<lparr> header = [''stop_id''], lines = [[''S1'']] \<rparr>),
      (''Routes.csv'', \<lparr> header = [''route_id''], lines = [[''R1'']] \<rparr>)]"

section \<open>Properties\<close>

subsection \<open>Minimum by key\<close>

lemma min_key_from_mem: "min_key_from lt key b xs \<in> set (b # xs)"
  by (induction xs arbitrary: b) auto

lemma min_key_from_below:
  assumes "strict_order lt"
  shows "min_key_from lt key b xs = b \<or> lt (key (min_key_from lt key b xs)) (key b)"
proof (induction xs arbitrary: b)
  case Nil
  show ?case by simp
next
  case (Cons x xs)
  let ?b' = "if lt (key x) (key b) then x else b"
  from Cons.IH[of ?b']
  have ih: "min_key_from lt key ?b' xs = ?b' \<or> lt (key (min_key_from lt key ?b' xs)) (key ?b')" .
  from assms have tr: "\<And>a b c. lt a b \<Longrightarrow> lt b c \<Longrightarrow> lt a c"
    unfolding strict_order_def by blast
  show ?case
  proof (cases "lt (key x) (key b)")
    case True
    with ih have "min_key_from lt key x xs = x \<or> lt (key (min_key_from lt key x xs)) (key x)"
      by simp
    then have "lt (key (min_key_from lt key x xs)) (key b)"
    proof
      assume "min_key_from lt key x xs = x"
      with True show ?thesis by simp
    next
      assume "lt (key (min_key_from lt key x xs)) (key x)"
      from tr[OF this True] show ?thesis .
    qed
    with True show ?thesis by simp
  next
    case False
    with ih show ?thesis by simp
  qed
qed

lemma min_key_from_least:
  assumes so: "strict_order lt"
  shows "x \<in> set (b # xs) \<Longrightarrow> \<not> lt (key x) (key (min_key_from lt key b xs))"
proof (induction xs arbitrary: b x)
  case Nil
  from so have "\<not> lt (key b) (key b)"
    unfolding strict_order_def by blast
  with Nil show ?case by simp
next
  case (Cons y ys)
  define b' where "b' = (if lt (key y) (key b) then y else b)"
  define m where "m = min_key_from lt key b' ys"
  have unf: "min_key_from lt key b (y # ys) = m"
    by (simp add: b'_def m_def)
  from so have tr: "\<And>a b c. lt a b \<Longrightarrow> lt b c \<Longrightarrow> lt a c"
    unfolding strict_order_def by blast
  have below: "m = b' \<or> lt (key m) (key b')"
    unfolding m_def by (rule min_key_from_below[OF so])
  have "b' \<in> set (b' # ys)" by simp
  from Cons.IH[OF this] have b'_least: "\<not> lt (key b') (key m)"
    unfolding m_def .
  from Cons.prems have "x = b \<or> x = y \<or> x \<in> set ys" by simp
  then consider "x = b" | "x = y" | "x \<in> set ys" by blast
  then have "\<not> lt (key x) (key m)"
  proof cases
    case 1
    show ?thesis
    proof (cases "lt (key y) (key b)")
      case True
      then have b': "b' = y" by (simp add: b'_def)
      show ?thesis
      proof
        assume "lt (key x) (key m)"
        then have "lt (key b) (key m)" by (simp only: 1)
        from tr[OF True this] have "lt (key y) (key m)" .
        with b'_least show False by (simp add: b')
      qed
    next
      case False
      then have "b' = b" by (simp add: b'_def)
      with b'_least show ?thesis by (simp add: 1)
    qed
  next
    case 2
    show ?thesis
    proof (cases "lt (key y) (key b)")
      case True
      then have "b' = y" by (simp add: b'_def)
      with b'_least show ?thesis by (simp add: 2)
    next
      case False
      then have b': "b' = b" by (simp add: b'_def)
      show ?thesis
      proof
        assume "lt (key x) (key m)"
        then have ym: "lt (key y) (key m)" by (simp only: 2)
        from below show False
        proof
          assume "m = b'"
          then have "m = b" by (simp add: b')
          with ym have "lt (key y) (key b)" by simp
          with False show False ..
        next
          assume "lt (key m) (key b')"
          from tr[OF ym this] have "lt (key y) (key b)" by (simp add: b')
          with False show False ..
        qed
      qed
    qed
  next
    case 3
    then have "x \<in> set (b' # ys)" by simp
    from Cons.IH[OF this] show ?thesis unfolding m_def .
  qed
  then show ?case unfolding unf .
qed

subsection \<open>The selection loop\<close>

lemma computed_Some:
  "computed cs = Some ds \<Longrightarrow> cs = map (\<lambda>(i, d). (i, Some d)) ds"
proof (induction cs arbitrary: ds rule: computed.induct)
  case 1
  then show ?case by simp
next
  case (2 i cs)
  then show ?case by simp
next
  case (3 i d cs)
  then show ?case by auto
qed

lemma computed_mem:
  assumes "computed cs = Some ds"
  shows "(j, od) \<in> set cs \<longleftrightarrow> (\<exists>d. od = Some d \<and> (j, d) \<in> set ds)"
  unfolding computed_Some[OF assms] by (force simp: split_beta)

lemma computed_all:
  "(\<forall>c \<in> set cs. snd c \<noteq> None) \<Longrightarrow> \<exists>ds. computed cs = Some ds"
  by (induction cs rule: computed.induct) auto

lemma set_candidates:
  "set (candidates F points used lst) =
     (\<lambda>i. (i, d2 F (points ! lst) (points ! i))) ` {i. i < length points \<and> \<not> used ! i}"
  by (auto simp: candidates_def)

lemma unused_exists:
  assumes "nn_inv points used order" "length order < length points"
  shows "\<exists>i<length points. \<not> used ! i"
proof (rule ccontr)
  assume "\<not> ?thesis"
  with assms(1) have "{..<length points} \<subseteq> set order"
    by (auto simp: nn_inv_def)
  then have "card {..<length points} \<le> card (set order)"
    by (intro card_mono) auto
  also have "\<dots> \<le> length order" by (rule card_length)
  finally show False using assms(2) by simp
qed

lemma nn_step:
  assumes inv: "nn_inv points used order"
    and cand: "computed (candidates F points used (last order)) = Some (c # cs)"
  defines "nx \<equiv> fst (min_key_from (f_lt F) snd c cs)"
  shows "nn_inv points (used[nx := True]) (order @ [nx])"
    and "strict_order (f_lt F) \<Longrightarrow> greedy F points order \<Longrightarrow> greedy F points (order @ [nx])"
proof -
  let ?m = "min_key_from (f_lt F) snd c cs"
  note cm = computed_mem[OF cand]
  have "?m \<in> set (c # cs)" by (rule min_key_from_mem)
  then have "(fst ?m, snd ?m) \<in> set (c # cs)" by simp
  then have "(fst ?m, Some (snd ?m)) \<in> set (candidates F points used (last order))"
    unfolding cm by blast
  then have nx_lt: "nx < length points" and nx_unused: "\<not> used ! nx"
    and m_d: "d2 F (points ! last order) (points ! nx) = Some (snd ?m)"
    by (auto simp: set_candidates nx_def)
  from inv nx_lt nx_unused have nx_new: "nx \<notin> set order"
    by (auto simp: nn_inv_def)
  show "nn_inv points (used[nx := True]) (order @ [nx])"
    using inv nx_lt nx_new by (auto simp: nn_inv_def nth_list_update)
  from inv have ne: "order \<noteq> []" by (simp add: nn_inv_def)
  assume so: "strict_order (f_lt F)" and gr: "greedy F points order"
  have least: "\<exists>dj. d2 F (points ! last order) (points ! j) = Some dj \<and> \<not> f_lt F dj (snd ?m)"
    if "j < length points" "j \<notin> set order" for j
  proof -
    from that inv have "\<not> used ! j" by (auto simp: nn_inv_def)
    with that have "(j, d2 F (points ! last order) (points ! j))
        \<in> set (candidates F points used (last order))"
      by (auto simp: set_candidates)
    then obtain dj where dj: "d2 F (points ! last order) (points ! j) = Some dj" "(j, dj) \<in> set (c # cs)"
      unfolding cm by blast
    from min_key_from_least[OF so dj(2), of snd] dj(1) show ?thesis by simp
  qed
  show "greedy F points (order @ [nx])"
    unfolding greedy_def
  proof (intro allI impI, elim conjE)
    fix k j
    assume k: "Suc k < length (order @ [nx])" and j: "j < length points"
      and nj: "j \<notin> set (take (Suc k) (order @ [nx]))"
    show "\<exists>dk dj. d2 F (points ! ((order @ [nx]) ! k)) (points ! ((order @ [nx]) ! Suc k)) = Some dk \<and>
            d2 F (points ! ((order @ [nx]) ! k)) (points ! j) = Some dj \<and> \<not> f_lt F dj dk"
    proof (cases "Suc k < length order")
      case True
      with nj have "j \<notin> set (take (Suc k) order)" by simp
      with gr True j have "\<exists>dk dj. d2 F (points ! (order ! k)) (points ! (order ! Suc k)) = Some dk \<and>
            d2 F (points ! (order ! k)) (points ! j) = Some dj \<and> \<not> f_lt F dj dk"
        unfolding greedy_def by (elim allE[of _ k] allE[of _ j]) simp
      with True show ?thesis by (simp add: nth_append)
    next
      case False
      with k have kk: "Suc k = length order" by simp
      with nj have nj': "j \<notin> set order" by simp
      from kk have k_eq: "k = length order - 1" by simp
      from least[OF j nj'] obtain dj where
        "d2 F (points ! last order) (points ! j) = Some dj" "\<not> f_lt F dj (snd ?m)" by blast
      with m_d kk ne show ?thesis
        by (simp add: nth_append last_conv_nth k_eq)
    qed
  qed
qed

lemma nn_loop_shape:
  "nn_inv points used order \<Longrightarrow> nn_loop F points used order = Some res \<Longrightarrow>
   length res = length points \<and> distinct res \<and> set res \<subseteq> {..<length points} \<and> hd res = hd order \<and>
   (strict_order (f_lt F) \<longrightarrow> greedy F points order \<longrightarrow> greedy F points res)"
proof (induction F points used order rule: nn_loop.induct)
  case (1 F points used order)
  show ?case
  proof (cases "length order < length points")
    case False
    from "1.prems"(1) have "distinct order" "set order \<subseteq> {..<length points}"
      by (auto simp: nn_inv_def)
    then have "card (set order) \<le> card {..<length points}"
      by (intro card_mono) auto
    with \<open>distinct order\<close> have "length order \<le> length points"
      by (simp add: distinct_card)
    with False have len: "length order = length points" by simp
    have "nn_loop F points used order = Some order"
      by (subst nn_loop.simps) (simp only: False if_False)
    with "1.prems"(2) have "res = order" by simp
    with len "1.prems"(1) show ?thesis by (simp add: nn_inv_def)
  next
    case True
    from unused_exists[OF "1.prems"(1) True]
    obtain i where i: "i < length points" "\<not> used ! i" by blast
    then have ne: "candidates F points used (last order) \<noteq> []"
      using set_candidates[of F points used "last order"] by force
    have step: "nn_loop F points used order =
        (case computed (candidates F points used (last order)) of
           None \<Rightarrow> None
         | Some [] \<Rightarrow> Some order
         | Some (c # cs) \<Rightarrow>
             nn_loop F points (used[fst (min_key_from (f_lt F) snd c cs) := True])
               (order @ [fst (min_key_from (f_lt F) snd c cs)]))"
      by (subst nn_loop.simps) (simp only: True if_True)
    from "1.prems"(2) obtain ds where ds: "computed (candidates F points used (last order)) = Some ds"
      unfolding step by (cases "computed (candidates F points used (last order))") simp_all
    from computed_Some[OF ds] ne obtain c cs where dcs: "ds = c # cs"
      by (cases ds) auto
    let ?nx = "fst (min_key_from (f_lt F) snd c cs)"
    note cand = ds[unfolded dcs]
    note st = nn_step[OF "1.prems"(1) cand]
    have unf: "nn_loop F points used order = nn_loop F points (used[?nx := True]) (order @ [?nx])"
      unfolding step by (simp only: cand option.case list.case)
    with "1.prems"(2) have r: "nn_loop F points (used[?nx := True]) (order @ [?nx]) = Some res"
      by simp
    from "1.IH"[OF True ds dcs st(1) r]
    have IH: "length res = length points \<and> distinct res \<and> set res \<subseteq> {..<length points} \<and>
        hd res = hd (order @ [?nx]) \<and>
        (strict_order (f_lt F) \<longrightarrow> greedy F points (order @ [?nx]) \<longrightarrow> greedy F points res)" .
    from "1.prems"(1) have "order \<noteq> []" by (simp add: nn_inv_def)
    then have hd: "hd (order @ [?nx]) = hd order" by simp
    from IH hd st(2) show ?thesis by auto
  qed
qed

lemma nn_loop_returns:
  "nn_inv points used order \<Longrightarrow>
   (\<forall>i<length points. \<forall>j<length points. d2 F (points ! i) (points ! j) \<noteq> None) \<Longrightarrow>
   \<exists>res. nn_loop F points used order = Some res"
proof (induction F points used order rule: nn_loop.induct)
  case (1 F points used order)
  show ?case
  proof (cases "length order < length points")
    case False
    then show ?thesis by (subst nn_loop.simps) (simp only: if_False, blast)
  next
    case True
    have step: "nn_loop F points used order =
        (case computed (candidates F points used (last order)) of
           None \<Rightarrow> None
         | Some [] \<Rightarrow> Some order
         | Some (c # cs) \<Rightarrow>
             nn_loop F points (used[fst (min_key_from (f_lt F) snd c cs) := True])
               (order @ [fst (min_key_from (f_lt F) snd c cs)]))"
      by (subst nn_loop.simps) (simp only: True if_True)
    from "1.prems"(1) have "order \<noteq> []" "set order \<subseteq> {..<length points}"
      by (auto simp: nn_inv_def)
    then have last: "last order < length points"
      by (metis last_in_set lessThan_iff subsetD)
    have "\<forall>c \<in> set (candidates F points used (last order)). snd c \<noteq> None"
      using "1.prems"(2) last by (auto simp: set_candidates)
    from computed_all[OF this] obtain ds where
      ds: "computed (candidates F points used (last order)) = Some ds" by blast
    show ?thesis
    proof (cases ds)
      case Nil
      with ds show ?thesis unfolding step by simp
    next
      case (Cons c cs)
      let ?nx = "fst (min_key_from (f_lt F) snd c cs)"
      note cand = ds[unfolded Cons]
      note st = nn_step(1)[OF "1.prems"(1) cand]
      have unf: "nn_loop F points used order = nn_loop F points (used[?nx := True]) (order @ [?nx])"
        unfolding step by (simp only: cand option.case list.case)
      from "1.IH"[OF True ds Cons st "1.prems"(2)] show ?thesis unfolding unf .
    qed
  qed
qed

lemma min_start_range:
  assumes "0 < length points"
  shows "min_start F points < length points"
proof -
  from assms have upt: "0 # [1..<length points] = [0..<length points]"
    by (simp add: upt_conv_Cons)
  have "min_start F points \<in> set (0 # [1..<length points])"
    unfolding min_start_def by (rule min_key_from_mem)
  then show ?thesis unfolding upt by simp
qed

lemma min_start_least:
  assumes "i < length points" "strict_order (tuple_lt F)"
  shows "\<not> tuple_lt F (start_key (points ! i)) (start_key (points ! min_start F points))"
proof -
  from assms(1) have "0 < length points" by auto
  then have upt: "0 # [1..<length points] = [0..<length points]"
    by (simp add: upt_conv_Cons)
  from assms have "i \<in> set (0 # [1..<length points])" unfolding upt by simp
  from min_key_from_least[OF assms(2) this, of "\<lambda>i. start_key (points ! i)"]
  show ?thesis by (simp add: min_start_def)
qed

lemma mset_map_nth_perm:
  assumes "distinct order" "set order \<subseteq> {..<length points}" "length order = length points"
  shows "mset (map (\<lambda>i. points ! i) order) = mset points"
proof -
  from assms(1,3) have "card (set order) = card {..<length points}"
    by (simp add: distinct_card)
  then have "card {..<length points} \<le> card (set order)" by simp
  with assms(2) have "set order = {..<length points}"
    by (rule card_seteq[OF finite_lessThan])
  also have "\<dots> = set [0..<length points]"
    by (simp only: set_upt atLeast0LessThan)
  finally have "set order = set [0..<length points]" .
  with assms(1) distinct_upt[of 0 "length points"]
  have "mset order = mset [0..<length points]"
    by (simp only: set_eq_iff_mset_eq_distinct)
  then have "image_mset (\<lambda>i. points ! i) (mset order) =
      image_mset (\<lambda>i. points ! i) (mset [0..<length points])"
    by (rule arg_cong)
  then have "mset (map (\<lambda>i. points ! i) order) = mset (map (\<lambda>i. points ! i) [0..<length points])"
    by (simp only: mset_map)
  also have "map (\<lambda>i. points ! i) [0..<length points] = points"
    by (rule map_nth)
  finally show ?thesis .
qed

lemma nn_start_inv:
  assumes "points \<noteq> []"
  shows "nn_inv points ((replicate (length points) False)[min_start F points := True])
           [min_start F points]"
proof -
  from assms have "0 < length points" by simp
  from min_start_range[OF this] show ?thesis
    by (auto simp: nn_inv_def nth_list_update)
qed

lemma nn_run:
  assumes ne: "points \<noteq> []" and res: "nearest_neighbor_order F points None = Inr res"
  obtains ord where "res = map (\<lambda>i. points ! i) ord" "length ord = length points" "distinct ord"
    "set ord \<subseteq> {..<length points}" "hd ord = min_start F points"
    "strict_order (f_lt F) \<Longrightarrow> greedy F points ord"
proof -
  let ?st = "min_start F points"
  from res ne obtain ord where
    ord: "nn_loop F points ((replicate (length points) False)[?st := True]) [?st] = Some ord"
    and r: "res = map (\<lambda>i. points ! i) ord"
    by (auto simp: nearest_neighbor_order_def Let_def split: option.splits)
  have gr0: "greedy F points [?st]" by (simp add: greedy_def)
  from nn_loop_shape[OF nn_start_inv[OF ne] ord] gr0
  have "length ord = length points" "distinct ord" "set ord \<subseteq> {..<length points}"
    "hd ord = ?st" "strict_order (f_lt F) \<Longrightarrow> greedy F points ord"
    by auto
  with r that show ?thesis by blast
qed

lemma nn_order_mset:
  assumes "nearest_neighbor_order F points None = Inr res"
  shows "mset res = mset points"
proof (cases "points = []")
  case True
  with assms show ?thesis by (simp add: nearest_neighbor_order_def)
next
  case False
  from nn_run[OF False assms] obtain ord where "res = map (\<lambda>i. points ! i) ord"
    "length ord = length points" "distinct ord" "set ord \<subseteq> {..<length points}"
    by blast
  then show ?thesis by (simp only: mset_map_nth_perm)
qed

lemma nn_order_error:
  "nearest_neighbor_order F points None = Inl e \<Longrightarrow> e = OverflowError"
  by (auto simp: nearest_neighbor_order_def Let_def split: if_splits option.splits)

lemma nn_order_returns:
  assumes "no_overflow F points"
  shows "\<exists>res. nearest_neighbor_order F points None = Inr res"
proof (cases "points = []")
  case True
  then show ?thesis by (simp add: nearest_neighbor_order_def)
next
  case False
  from assms have "\<forall>i<length points. \<forall>j<length points. d2 F (points ! i) (points ! j) \<noteq> None"
    by (auto simp: no_overflow_def list_all_iff)
  from nn_loop_returns[OF nn_start_inv[OF False] this, of F]
  show ?thesis using False by (auto simp: nearest_neighbor_order_def Let_def)
qed

subsection \<open>The ordering as a whole\<close>

lemma double_lt_order: "strict_order (f_lt double_ops)"
  by (auto simp: strict_order_def double_ops_def)

lemma double_tuple_order: "strict_order (tuple_lt double_ops)"
  unfolding strict_order_def tuple_lt_def
  by (auto simp: double_ops_def split: if_splits)

lemma d2_double:
  "d2 double_ops a b \<noteq> None \<longleftrightarrow>
     \<bar>fst a - fst b\<bar> < 2 ^ 512 \<and> \<bar>snd a - snd b\<bar> < 2 ^ 512"
  by (auto simp: d2_def double_ops_def split: option.splits if_splits)

theorem nearest_neighbor_order_rounding:
  "nearest_neighbor_order double_ops [(0, 0), (1 / 2 ^ 30, 1), (0, 1)] None
     = Inr [(0, 0), (1 / 2 ^ 30, 1), (0, 1)] \<and>
   euclid2 (0, 0) (0, 1) < euclid2 (0, 0) (1 / 2 ^ 30, 1) \<and>
   nearest_neighbor_order double_ops [(0, 0), (2 ^ 700, 0)] None = Inl OverflowError"
proof (intro conjI)
  show "nearest_neighbor_order double_ops [(0, 0), (1 / 2 ^ 30, 1), (0, 1)] None
     = Inr [(0, 0), (1 / 2 ^ 30, 1), (0, 1)]"
    by (simp add: nearest_neighbor_order_def min_start_def start_key_def tuple_lt_def
          candidates_def d2_def double_ops_def nn_loop.simps upt_conv_Cons)
  show "euclid2 (0, 0) (0, 1) < euclid2 (0, 0) (1 / 2 ^ 30, 1)"
    by (simp add: euclid2_def power2_eq_square)
  show "nearest_neighbor_order double_ops [(0, 0), (2 ^ 700, 0)] None = Inl OverflowError"
    by (simp add: nearest_neighbor_order_def min_start_def start_key_def tuple_lt_def
          candidates_def d2_def double_ops_def nn_loop.simps upt_conv_Cons)
qed

text \<open>
  Claim C2 (amended). The empty list gives the empty list. For a non-empty list of points,
  \<open>nearest_neighbor_order\<close> without a start index returns unless a squared difference
  overflows (then it raises \<open>OverflowError\<close>, and nothing else), and what it returns is a
  permutation of the input. When \<open><\<close> on the \<open>(lon, lat)\<close> keys is a strict order, no point
  has a key less than the key of the first element. When \<open><\<close> on floats is a strict order,
  no element placed later is nearer to an element than the element placed just after it,
  the distance being the squared distance as computed in floats.
\<close>

theorem nearest_neighbor_order_float:
  "nearest_neighbor_order F [] None = Inr [] \<and>
   (points \<noteq> [] \<longrightarrow>
      (no_overflow F points \<longrightarrow> (\<exists>res. nearest_neighbor_order F points None = Inr res)) \<and>
      (\<forall>e. nearest_neighbor_order F points None = Inl e \<longrightarrow> e = OverflowError) \<and>
      (\<forall>res. nearest_neighbor_order F points None = Inr res \<longrightarrow>
         mset res = mset points \<and>
         (strict_order (tuple_lt F) \<longrightarrow>
            (\<forall>p \<in> set points. \<not> tuple_lt F (start_key p) (start_key (hd res)))) \<and>
         (strict_order (f_lt F) \<longrightarrow>
            (\<forall>k j. k < j \<and> j < length points \<longrightarrow>
               (\<exists>dk dj. d2 F (res ! k) (res ! Suc k) = Some dk \<and>
                        d2 F (res ! k) (res ! j) = Some dj \<and> \<not> f_lt F dj dk)))))"
proof (intro conjI impI allI)
  show "nearest_neighbor_order F [] None = Inr []"
    by (simp add: nearest_neighbor_order_def)
next
  assume "no_overflow F points"
  then show "\<exists>res. nearest_neighbor_order F points None = Inr res"
    by (rule nn_order_returns)
next
  fix e assume "nearest_neighbor_order F points None = Inl e"
  then show "e = OverflowError" by (rule nn_order_error)
next
  fix res assume "nearest_neighbor_order F points None = Inr res"
  then show "mset res = mset points" by (rule nn_order_mset)
next
  fix res
  assume ne: "points \<noteq> []" and res: "nearest_neighbor_order F points None = Inr res"
    and so: "strict_order (tuple_lt F)"
  from nn_run[OF ne res] obtain ord where ord: "res = map (\<lambda>i. points ! i) ord"
    "length ord = length points" "hd ord = min_start F points"
    by blast
  from ord(2) ne have "ord \<noteq> []" by auto
  with ord have hd: "hd res = points ! min_start F points" by (simp add: hd_map)
  show "\<forall>p \<in> set points. \<not> tuple_lt F (start_key p) (start_key (hd res))"
  proof
    fix p assume "p \<in> set points"
    then obtain i where i: "i < length points" "p = points ! i"
      by (auto simp: in_set_conv_nth)
    from min_start_least[OF i(1) so] show "\<not> tuple_lt F (start_key p) (start_key (hd res))"
      unfolding hd i(2) .
  qed
next
  fix res k j
  assume ne: "points \<noteq> []" and res: "nearest_neighbor_order F points None = Inr res"
    and so: "strict_order (f_lt F)" and kj: "k < j \<and> j < length points"
  from nn_run[OF ne res] so obtain ord where ord: "res = map (\<lambda>i. points ! i) ord"
    and len: "length ord = length points" and dist: "distinct ord"
    and sub: "set ord \<subseteq> {..<length points}" and gr: "greedy F points ord"
    by blast
  from kj len have sk: "Suc k < length ord" and jl: "j < length ord" and kl: "k < length ord"
    by simp_all
  have "ord ! j \<notin> set (take (Suc k) ord)"
  proof
    assume "ord ! j \<in> set (take (Suc k) ord)"
    then obtain m where m: "m < Suc k" "m < length ord" "ord ! m = ord ! j"
      by (auto simp: in_set_conv_nth)
    with dist jl have "m = j" by (simp add: nth_eq_iff_index_eq)
    with m(1) kj show False by simp
  qed
  moreover from sub jl have "ord ! j < length points" by (auto dest: nth_mem)
  ultimately have "\<exists>dk dj. d2 F (points ! (ord ! k)) (points ! (ord ! Suc k)) = Some dk \<and>
      d2 F (points ! (ord ! k)) (points ! (ord ! j)) = Some dj \<and> \<not> f_lt F dj dk"
    using gr sk unfolding greedy_def by (elim allE[of _ k] allE[of _ "ord ! j"]) simp
  then show "\<exists>dk dj. d2 F (res ! k) (res ! Suc k) = Some dk \<and>
      d2 F (res ! k) (res ! j) = Some dj \<and> \<not> f_lt F dj dk"
    unfolding ord using sk jl kl by simp
qed

theorem nearest_neighbor_order_float_witness:
  "strict_order (f_lt double_ops) \<and> strict_order (tuple_lt double_ops) \<and>
   no_overflow double_ops [(12, 77), (12, 155 / 2), (12, 307 / 4)] \<and>
   nearest_neighbor_order double_ops [(12, 77), (12, 155 / 2), (12, 307 / 4)] None
     = Inr [(12, 307 / 4), (12, 77), (12, 155 / 2)] \<and>
   mset ([(12, 307 / 4), (12, 77), (12, 155 / 2)] :: (real \<times> real) list)
     = mset [(12, 77), (12, 155 / 2), (12, 307 / 4)] \<and>
   \<not> tuple_lt double_ops (start_key (12, 77)) (start_key (12, 307 / 4)) \<and>
   d2 double_ops (12, 307 / 4) (12, 77) = Some (1 / 16) \<and>
   d2 double_ops (12, 307 / 4) (12, 155 / 2) = Some (9 / 16) \<and>
   \<not> f_lt double_ops (9 / 16) (1 / 16)"
proof -
  define pts :: "(real \<times> real) list" where "pts = [(12, 77), (12, 155 / 2), (12, 307 / 4)]"
  have ne: "pts \<noteq> []" by (simp add: pts_def)
  have no: "no_overflow double_ops pts"
    by (simp add: no_overflow_def pts_def d2_double del: not_None_eq)
  have ev: "nearest_neighbor_order double_ops pts None = Inr [(12, 307 / 4), (12, 77), (12, 155 / 2)]"
    by (simp add: pts_def nearest_neighbor_order_def min_start_def start_key_def tuple_lt_def
          candidates_def d2_def double_ops_def nn_loop.simps upt_conv_Cons)
  note inst = nearest_neighbor_order_float[of double_ops pts]
  from inst ne ev have m: "mset [(12, 307 / 4), (12, 77), (12, 155 / 2 :: real)] = mset pts"
    by blast
  from inst ne ev double_tuple_order
  have "\<forall>p \<in> set pts. \<not> tuple_lt double_ops (start_key p)
      (start_key (hd [(12, 307 / 4), (12, 77), (12, 155 / 2 :: real)]))"
    by blast
  then have s: "\<not> tuple_lt double_ops (start_key (12, 77)) (start_key (12, 307 / 4))"
    by (simp add: pts_def)
  have d: "d2 double_ops (12, 307 / 4) (12, 77) = Some (1 / 16)"
    "d2 double_ops (12, 307 / 4) (12, 155 / 2) = Some (9 / 16)"
    by (simp_all add: d2_def double_ops_def)
  from inst ne ev double_lt_order
  have "\<forall>k j. k < j \<and> j < length pts \<longrightarrow>
      (\<exists>dk dj. d2 double_ops ([(12, 307 / 4), (12, 77), (12, 155 / 2 :: real)] ! k)
                  ([(12, 307 / 4), (12, 77), (12, 155 / 2)] ! Suc k) = Some dk \<and>
               d2 double_ops ([(12, 307 / 4), (12, 77), (12, 155 / 2)] ! k)
                  ([(12, 307 / 4), (12, 77), (12, 155 / 2)] ! j) = Some dj \<and> \<not> f_lt double_ops dj dk)"
    by blast
  from this[rule_format, of 0 2] obtain dk dj where
    a: "d2 double_ops (12, 307 / 4) (12, 77) = Some dk"
    and b: "d2 double_ops (12, 307 / 4) (12, 155 / 2) = Some dj"
    and c: "\<not> f_lt double_ops dj dk"
    unfolding pts_def by auto
  from a b have "dk = 1 / 16" "dj = 9 / 16" unfolding d by simp_all
  with c have g: "\<not> f_lt double_ops (9 / 16) (1 / 16)" by simp
  from double_lt_order double_tuple_order no ev m s d g show ?thesis
    unfolding pts_def by blast
qed

subsection \<open>String helpers\<close>

lemma strip_by_keep:
  assumes "\<not> P a" "\<not> P b"
  shows "strip_by P (a # xs @ [b]) = a # xs @ [b]"
  using assms by (simp add: strip_by_def)

lemma strip_by_single: "\<not> P a \<Longrightarrow> strip_by P [a] = [a]"
  by (simp add: strip_by_def)

lemma json_dumps_shape: "json_dumps ys = CHR ''['' # join '', '' (map json_string ys) @ [CHR '']'']"
  by (simp add: json_dumps_def)

lemma strip_json_dumps: "strip (json_dumps ys) = json_dumps ys"
  unfolding json_dumps_shape strip_def
  by (rule strip_by_keep) (simp_all add: is_space_def)

lemma json_dumps_nonempty: "json_dumps ys \<noteq> []"
  by (simp add: json_dumps_shape)

subsection \<open>The parser\<close>

lemma clean_tokens_nonempty: "y \<in> set (clean_tokens L xs) \<Longrightarrow> y \<noteq> []"
  by (auto simp: clean_tokens_def)

lemma comma_fallback_nonempty: "y \<in> set (comma_fallback s) \<Longrightarrow> y \<noteq> []"
  by (auto simp: comma_fallback_def)

lemma parse_list_nonempty: "y \<in> set (parse_list L v) \<Longrightarrow> y \<noteq> []"
  by (auto simp: parse_list_def Let_def
        dest: clean_tokens_nonempty comma_fallback_nonempty
        split: pyval.splits option.splits if_splits)

lemma clean_tokens_strs:
  assumes "\<forall>y \<in> set ys. strip y = y \<and> y \<noteq> []"
  shows "clean_tokens L (map PStr ys) = ys"
  using assms by (induction ys) (auto simp: clean_tokens_def py_str_def)

lemma flatten_plain:
  assumes "\<forall>y \<in> set ys. \<not> starts_bracket (strip y)"
  shows "concat (map (flatten_item L) (map PStr ys)) = map PStr ys"
  using assms by (induction ys) (auto simp: flatten_item_def)

lemma parse_list_roundtrip:
  assumes rt: "json_loads L (json_dumps (parse_list L x)) = Some (PList (map PStr (parse_list L x)))"
    and plain: "\<forall>y \<in> set (parse_list L x). strip y = y \<and> \<not> starts_bracket y"
  shows "parse_list L (PStr (json_dumps (parse_list L x))) = parse_list L x"
proof -
  define ys where "ys = parse_list L x"
  have ne: "\<forall>y \<in> set ys. strip y = y \<and> y \<noteq> []"
    using plain parse_list_nonempty unfolding ys_def by blast
  have nb: "\<forall>y \<in> set ys. \<not> starts_bracket (strip y)"
    using plain unfolding ys_def by simp
  have "parse_list L (PStr (json_dumps ys)) = clean_tokens L (concat (map (flatten_item L) (map PStr ys)))"
    using rt unfolding ys_def[symmetric]
    by (simp add: parse_list_def strip_json_dumps json_dumps_nonempty)
  also have "\<dots> = ys"
    by (simp only: flatten_plain[OF nb] clean_tokens_strs[OF ne])
  finally show ?thesis unfolding ys_def .
qed

subsection \<open>The mapping resolver\<close>

lemma set_lookup_add_edge:
  "v' \<in> set (set_lookup (add_edge m k v) k') \<longleftrightarrow>
     (k' = k \<and> v' = v) \<or> v' \<in> set (set_lookup m k')"
  by (auto simp: add_edge_def set_lookup_def)

lemma rel_of_add:
  assumes "rel_of (s2r, r2s) D"
  shows "rel_of (add_edge s2r s r, add_edge r2s r s) (insert (s, r) D)"
  using assms unfolding rel_of_def by (auto simp: set_lookup_add_edge)

lemma rel_of_stop_fold:
  assumes "rel_of st D"
  shows "rel_of
           (fold (\<lambda>rid (s2r, r2s).
                    let rid_s = strip rid in
                    if rid_s = [] then (s2r, r2s)
                    else (add_edge s2r sid rid_s, add_edge r2s rid_s sid)) rids st)
           (D \<union> {(sid, strip rid) | rid. rid \<in> set rids \<and> strip rid \<noteq> []})"
  using assms
proof (induction rids arbitrary: st D)
  case Nil
  then show ?case by simp
next
  case (Cons rid rids)
  obtain s2r r2s where st: "st = (s2r, r2s)" by (cases st)
  show ?case
  proof (cases "strip rid = []")
    case True
    have eq: "D \<union> {(sid, strip x) | x. x \<in> set (rid # rids) \<and> strip x \<noteq> []}
            = D \<union> {(sid, strip x) | x. x \<in> set rids \<and> strip x \<noteq> []}"
      using True by auto
    from Cons.IH[OF Cons.prems] show ?thesis
      unfolding eq by (simp add: st True)
  next
    case False
    have eq: "D \<union> {(sid, strip x) | x. x \<in> set (rid # rids) \<and> strip x \<noteq> []}
            = insert (sid, strip rid) D \<union> {(sid, strip x) | x. x \<in> set rids \<and> strip x \<noteq> []}"
      using False by auto
    from Cons.prems have "rel_of (add_edge s2r sid (strip rid), add_edge r2s (strip rid) sid)
        (insert (sid, strip rid) D)"
      unfolding st by (rule rel_of_add)
    from Cons.IH[OF this] show ?thesis
      unfolding eq by (simp add: st False Let_def)
  qed
qed

lemma rel_of_route_fold:
  assumes "rel_of st D"
  shows "rel_of
           (fold (\<lambda>sid (s2r, r2s).
                    let sid_s = strip sid in
                    if sid_s = [] then (s2r, r2s)
                    else (add_edge s2r sid_s rid, add_edge r2s rid sid_s)) sids st)
           (D \<union> {(strip sid, rid) | sid. sid \<in> set sids \<and> strip sid \<noteq> []})"
  using assms
proof (induction sids arbitrary: st D)
  case Nil
  then show ?case by simp
next
  case (Cons sid sids)
  obtain s2r r2s where st: "st = (s2r, r2s)" by (cases st)
  show ?case
  proof (cases "strip sid = []")
    case True
    have eq: "D \<union> {(strip x, rid) | x. x \<in> set (sid # sids) \<and> strip x \<noteq> []}
            = D \<union> {(strip x, rid) | x. x \<in> set sids \<and> strip x \<noteq> []}"
      using True by auto
    from Cons.IH[OF Cons.prems] show ?thesis
      unfolding eq by (simp add: st True)
  next
    case False
    have eq: "D \<union> {(strip x, rid) | x. x \<in> set (sid # sids) \<and> strip x \<noteq> []}
            = insert (strip sid, rid) D \<union> {(strip x, rid) | x. x \<in> set sids \<and> strip x \<noteq> []}"
      using False by auto
    from Cons.prems have "rel_of (add_edge s2r (strip sid) rid, add_edge r2s rid (strip sid))
        (insert (strip sid, rid) D)"
      unfolding st by (rule rel_of_add)
    from Cons.IH[OF this] show ?thesis
      unfolding eq by (simp add: st False Let_def)
  qed
qed

lemma rel_of_stop_rows:
  assumes "rel_of st D"
  shows "rel_of (fold (stop_row_edges L) rows st) (D \<union> stop_side_edges L rows)"
  using assms
proof (induction rows arbitrary: st D)
  case Nil
  then show ?case by (simp add: stop_side_edges_def)
next
  case (Cons r rows)
  let ?one = "{(stop_row_id L r, strip rid) | rid.
      rid \<in> set (parse_list L (py_or (row_get r ''routes'') (PStr ''[]''))) \<and> strip rid \<noteq> []}"
  have step: "rel_of (stop_row_edges L r st)
      (D \<union> (if stop_row_id L r = [] then {} else ?one))"
  proof (cases "stop_row_id L r = []")
    case True
    with Cons.prems show ?thesis by (simp add: stop_row_edges_def)
  next
    case False
    from rel_of_stop_fold[OF Cons.prems] False show ?thesis
      by (simp add: stop_row_edges_def Let_def)
  qed
  have eq: "D \<union> stop_side_edges L (r # rows)
      = (D \<union> (if stop_row_id L r = [] then {} else ?one)) \<union> stop_side_edges L rows"
    unfolding stop_side_edges_def by auto
  from Cons.IH[OF step] show ?case unfolding eq by simp
qed

lemma rel_of_route_rows:
  assumes "rel_of st D"
  shows "rel_of (fold (route_row_edges L) rows st) (D \<union> route_side_edges L rows)"
  using assms
proof (induction rows arbitrary: st D)
  case Nil
  then show ?case by (simp add: route_side_edges_def)
next
  case (Cons r rows)
  let ?one = "{(strip sid, route_row_id L r) | sid.
      sid \<in> set (parse_list L (py_or (row_get r ''stops'') (PStr ''[]''))) \<and> strip sid \<noteq> []}"
  have step: "rel_of (route_row_edges L r st)
      (D \<union> (if route_row_id L r = [] then {} else ?one))"
  proof (cases "route_row_id L r = []")
    case True
    with Cons.prems show ?thesis by (simp add: route_row_edges_def)
  next
    case False
    from rel_of_route_fold[OF Cons.prems] False show ?thesis
      by (simp add: route_row_edges_def Let_def)
  qed
  have eq: "D \<union> route_side_edges L (r # rows)
      = (D \<union> (if route_row_id L r = [] then {} else ?one)) \<union> route_side_edges L rows"
    unfolding route_side_edges_def by auto
  from Cons.IH[OF step] show ?case unfolding eq by simp
qed

lemma rel_of_load:
  "rel_of (load_stop_route_mappings L bs_rows rt_rows)
     (stop_side_edges L bs_rows \<union> route_side_edges L rt_rows)"
proof -
  have "rel_of (Map.empty, Map.empty) {}"
    by (simp add: rel_of_def set_lookup_def)
  from rel_of_route_rows[OF rel_of_stop_rows[OF this]] show ?thesis
    by (simp add: load_stop_route_mappings_def)
qed

text \<open>
  Claim C4. The two mappings returned by \<open>load_stop_route_mappings\<close> are symmetric: a route
  id \<open>r\<close> is in the entry of stop \<open>s\<close> exactly when \<open>s\<close> is in the entry of route \<open>r\<close>.
  Both hold exactly when the edge is declared on the stop side or on the route side of the
  data, so a declaration missing on one side never removes an edge declared on the other.
\<close>

theorem load_stop_route_mappings_symmetric:
  "(r \<in> set (set_lookup (fst (load_stop_route_mappings L bs_rows rt_rows)) s)
      \<longleftrightarrow> s \<in> set (set_lookup (snd (load_stop_route_mappings L bs_rows rt_rows)) r)) \<and>
   (r \<in> set (set_lookup (fst (load_stop_route_mappings L bs_rows rt_rows)) s)
      \<longleftrightarrow> (s, r) \<in> stop_side_edges L bs_rows \<union> route_side_edges L rt_rows)"
  using rel_of_load[of L bs_rows rt_rows] unfolding rel_of_def by blast

subsection \<open>Collecting the stop ids of a route\<close>

lemma collect_route_stop_ids_superset:
  "sorted (collect_route_stop_ids L rid route_row stops_rows route_to_stops) \<and>
   distinct (collect_route_stop_ids L rid route_row stops_rows route_to_stops) \<and>
   {strip x | x. x \<in> set (parse_list L (py_or (row_get route_row ''stops'') (PStr ''[]''))) \<and> strip x \<noteq> []}
     \<subseteq> set (collect_route_stop_ids L rid route_row stops_rows route_to_stops) \<and>
   set (set_lookup route_to_stops rid)
     \<subseteq> set (collect_route_stop_ids L rid route_row stops_rows route_to_stops)"
  by (auto simp: collect_route_stop_ids_def Let_def)

subsection \<open>The import loop\<close>

lemma import_loop_eq:
  "import_loop L i data (errs, cnt, keep) =
     (errs @ item_errors L i data, cnt + length (valid_items L i data),
      fold (\<lambda>p d. AList.update (fst p) (snd p) d) (valid_items L i data) keep)"
  by (induction data arbitrary: i errs cnt keep) (auto split: sum.splits)

lemma errors_plus_valid:
  "length (item_errors L i data) + length (valid_items L i data) = length data"
  by (induction data arbitrary: i) (auto split: sum.splits)

lemma map_of_fold_update:
  "map_of (fold (\<lambda>p d. AList.update (fst p) (snd p) d) ps al) = map_of al ++ map_of (rev ps)"
proof (induction ps arbitrary: al)
  case Nil
  then show ?case by simp
next
  case (Cons p ps)
  have "map_of (fold (\<lambda>p d. AList.update (fst p) (snd p) d) (p # ps) al)
      = map_of (AList.update (fst p) (snd p) al) ++ map_of (rev ps)"
    using Cons.IH by simp
  also have "map_of (AList.update (fst p) (snd p) al) = map_of al ++ map_of [p]"
    by (rule ext) (simp add: update_conv' map_add_def)
  also have "(map_of al ++ map_of [p]) ++ map_of (rev ps) = map_of al ++ map_of (rev (p # ps))"
    by (simp add: map_add_assoc)
  finally show ?case .
qed

lemma keys_fold_update:
  "fst ` set (fold (\<lambda>p d. AList.update (fst p) (snd p) d) ps al) = fst ` set al \<union> fst ` set ps"
  by (induction ps arbitrary: al) (auto simp: dom_update)


lemma final_keep_fold:
  "final_keep L existing data =
     fold (\<lambda>p d. AList.update (fst p) (snd p) d) (existing_pairs L existing @ valid_items L 0 data) []"
  by (simp add: final_keep_def initial_keep_def)

lemma final_keep_map_of:
  "map_of (final_keep L existing data)
     = map_of (rev (existing_pairs L existing @ valid_items L 0 data))"
  unfolding final_keep_fold by (simp only: map_of_fold_update) simp




lemma import_stops_eq:
  assumes "mode = ''replace'' \<or> mode = ''append''"
  shows "import_stops L fs mode data =
     (let existing = (if mode = ''append'' then read_csv fs else []);
          errs = item_errors L 0 data;
          rows = map snd (final_keep L existing data)
      in if length data < 2 * length errs
         then (fs, Inl (TooManyErrors (length errs) (take 5 errs)))
         else (Some (write_csv L rows
                  (if existing = [] then map Some BUS_STOPS_FIELDS
                   else set_iter L (remdups (map Some BUS_STOPS_FIELDS @ keys_union existing)))),
               Inr \<lparr> imported = length data, saved = length rows,
                     processed = length (valid_items L 0 data),
                     warnings = (if errs \<noteq> [] then Some (take 10 errs) else None) \<rparr>))"
proof -
  have empty: "\<not> length data < 2 * length (item_errors L 0 data)" if "item_errors L 0 data = []"
    using that by simp
  show ?thesis
    using assms empty
    by (auto simp: import_stops_def Let_def import_loop_eq final_keep_def)
qed

lemma process_item_stop_id:
  "process_item L i obj = Inr (sid, row) \<Longrightarrow> row_get row ''stop_id'' = PStr sid"
  by (auto simp: process_item_def Let_def row_get_def
        split: pyval.splits sum.splits if_splits prod.splits coord_error.splits)

lemma valid_items_stop_id:
  "(sid, row) \<in> set (valid_items L i data) \<Longrightarrow> row_get row ''stop_id'' = PStr sid"
  by (induction data arbitrary: i)
     (auto split: sum.splits dest: process_item_stop_id process_item_stop_id[OF sym])

lemma final_keep_has_valid:
  assumes "p \<in> set (valid_items L 0 data)"
  shows "\<exists>r \<in> set (map snd (final_keep L existing data)).
           (fst p, r) \<in> set (valid_items L 0 data) \<and> row_get r ''stop_id'' = PStr (fst p)"
proof -
  from assms have "fst p \<in> fst ` set (rev (valid_items L 0 data))" by force
  then obtain r where r: "map_of (rev (valid_items L 0 data)) (fst p) = Some r"
    by (metis domD dom_map_of_conv_image_fst)
  then have mem: "(fst p, r) \<in> set (valid_items L 0 data)"
    by (auto dest: map_of_SomeD)
  have "map_of (final_keep L existing data) (fst p) = Some r"
    using r by (simp add: final_keep_map_of map_add_def)
  then have "(fst p, r) \<in> set (final_keep L existing data)"
    by (rule map_of_SomeD)
  then have "r \<in> set (map snd (final_keep L existing data))" by force
  with mem valid_items_stop_id[OF mem] show ?thesis by blast
qed

subsection \<open>Headers\<close>

lemma keys_dict_fold:
  "set (map fst (fold (\<lambda>kv d. AList.update (fst kv) (snd kv) d) ps al))
     = set (map fst al) \<union> set (map fst ps)"
  using keys_fold_update[of ps al] by simp





lemma flatten_fixed:
  assumes "\<forall>y \<in> set ys. flatten_item L (PStr y) = [PStr y]"
  shows "concat (map (flatten_item L) (map PStr ys)) = map PStr ys"
  using assms by (induction ys) auto

lemma parse_list_other:
  "v \<noteq> PNone \<Longrightarrow> (\<forall>xs. v \<noteq> PList xs) \<Longrightarrow> (\<forall>s. v \<noteq> PStr s) \<Longrightarrow> parse_list L v = []"
  by (cases v) (auto simp: parse_list_def)

text \<open>
  Claim C5: the list parser never raises and returns only non-empty strings with the
  surrounding whitespace stripped. On the comma-split path the code strips whitespace first
  and quote characters second, so the field \<open>' a\<close> (json.loads and ast.literal_eval both
  reject it) parses to the single token \<open>" a"\<close>, which still begins with a space.
\<close>

theorem parse_list_fallback_keeps_space:
  "parse_list lib_table (PStr ''' a'') = ['' a''] \<and> strip '' a'' \<noteq> '' a''"
  by (simp add: parse_list_def lib_table_def strip_def strip_by_def is_space_def
        comma_fallback_def strip_chars_def)

text \<open>
  Claim C3: the collected stop ids are sorted, duplicate-free and a superset of the parsed
  declared stops of the route row and of the resolver's entry. At a route row whose stops
  field is \<open>' a\<close> the parsed declared list is \<open>[" a"]\<close> while the collector returns
  \<open>["a"]\<close>, which does not contain the declared token.
\<close>

theorem collect_route_stop_ids_misses_declared:
  "parse_list lib_table
     (py_or (row_get [(Some ''route_id'', PStr ''R1''), (Some ''stops'', PStr ''' a'')] ''stops'') (PStr ''[]''))
     = ['' a''] \<and>
   collect_route_stop_ids lib_table ''R1''
     [(Some ''route_id'', PStr ''R1''), (Some ''stops'', PStr ''' a'')] [] Map.empty = [''a'']"
  by (simp add: collect_route_stop_ids_def row_get_def py_or_def set_lookup_def
        parse_list_def lib_table_def strip_def strip_by_def is_space_def
        comma_fallback_def strip_chars_def)

theorem parse_list_roundtrip_nested:
  "parse_list lib_table (PStr (json_dumps (parse_list lib_table (PList [PStr ''['42']'']))))
     \<noteq> parse_list lib_table (PList [PStr ''['42']''])"
  by (simp add: parse_list_def lib_table_def strip_def strip_by_def is_space_def
        clean_tokens_def py_str_def json_dumps_def json_string_def json_escape_def
        flatten_item_def starts_bracket_def)

text \<open>
  Claim C6 (amended): re-parsing the JSON serialisation of a parsed list gives the same list
  whenever json.loads inverts json.dumps on it, every token is free of surrounding
  whitespace and no token is a bracketed literal that the nested-list rule would unpack.
\<close>

theorem parse_list_idempotent:
  assumes rt: "json_loads L (json_dumps (parse_list L x)) = Some (PList (map PStr (parse_list L x)))"
    and plain: "\<forall>y \<in> set (parse_list L x). strip y = y \<and> flatten_item L (PStr y) = [PStr y]"
  shows "parse_list L (PStr (json_dumps (parse_list L x))) = parse_list L x"
proof -
  define ys where "ys = parse_list L x"
  have ne: "\<forall>y \<in> set ys. strip y = y \<and> y \<noteq> []"
    using plain parse_list_nonempty unfolding ys_def by blast
  have nb: "\<forall>y \<in> set ys. flatten_item L (PStr y) = [PStr y]"
    using plain unfolding ys_def by simp
  have "parse_list L (PStr (json_dumps ys)) = clean_tokens L (concat (map (flatten_item L) (map PStr ys)))"
    using rt unfolding ys_def[symmetric]
    by (simp add: parse_list_def strip_json_dumps json_dumps_nonempty)
  also have "\<dots> = ys"
    by (simp only: flatten_fixed[OF nb] clean_tokens_strs[OF ne])
  finally show ?thesis unfolding ys_def .
qed

theorem parse_list_idempotent_witness:
  "parse_list lib_table (PStr ''a,b'') = [''a'', ''b''] \<and>
   json_loads lib_table (json_dumps [''a'', ''b'']) = Some (PList [PStr ''a'', PStr ''b'']) \<and>
   strip ''a'' = ''a'' \<and> strip ''b'' = ''b'' \<and>
   flatten_item lib_table (PStr ''a'') = [PStr ''a''] \<and>
   flatten_item lib_table (PStr ''b'') = [PStr ''b''] \<and>
   parse_list lib_table (PStr (json_dumps (parse_list lib_table (PStr ''a,b'')))) = [''a'', ''b'']"
  using parse_list_idempotent[of lib_table "PStr ''a,b''"]
  by (simp add: parse_list_def lib_table_def strip_def strip_by_def is_space_def
        comma_fallback_def strip_chars_def json_dumps_def json_string_def json_escape_def
        flatten_item_def starts_bracket_def)

theorem load_stop_route_mappings_witness:
  "''R2'' \<in> set (set_lookup (fst (load_stop_route_mappings lib_table
       [[(Some ''stop_id'', PStr ''S1''), (Some ''routes'', PStr ''R1'')]]
       [[(Some ''route_id'', PStr ''R2''), (Some ''stops'', PStr ''S1'')]])) ''S1'') \<and>
   ''S1'' \<in> set (set_lookup (snd (load_stop_route_mappings lib_table
       [[(Some ''stop_id'', PStr ''S1''), (Some ''routes'', PStr ''R1'')]]
       [[(Some ''route_id'', PStr ''R2''), (Some ''stops'', PStr ''S1'')]])) ''R2'')"
  using conjunct1[OF load_stop_route_mappings_symmetric[of "''R2''" lib_table
       "[[(Some ''stop_id'', PStr ''S1''), (Some ''routes'', PStr ''R1'')]]"
       "[[(Some ''route_id'', PStr ''R2''), (Some ''stops'', PStr ''S1'')]]" "''S1''"]]
  by (simp add: load_stop_route_mappings_def stop_row_edges_def route_row_edges_def
        stop_row_id_def route_row_id_def row_get_def py_or_def py_str_def add_edge_def set_lookup_def
        parse_list_def lib_table_def strip_def strip_by_def is_space_def
        comma_fallback_def strip_chars_def Let_def)

subsection \<open>Batches\<close>

lemma process_item_not_object: "process_item L i PNone = Inl (RowNotObject (i + 1))"
  by (simp add: process_item_def)

lemma process_item_stop_item:
  "list_all is_id_char sid \<Longrightarrow> sid \<noteq> [] \<Longrightarrow> length sid \<le> 50 \<Longrightarrow> strip sid = sid \<Longrightarrow>
   process_item lib_table i (stop_item sid) =
     Inr (sid, [(Some ''stop_id'', PStr sid), (Some ''name'', PStr ''Depot''),
                (Some ''latitude'', PStr ''12.000000''), (Some ''longitude'', PStr ''77.000000''),
                (Some ''routes'', PStr ''[]''), (Some ''accessibility'', PStr ''True'')])"
  by (simp add: process_item_def stop_item_def obj_get_def py_or_def py_str_def
        validate_stop_id_def validate_name_def validate_coordinates_def py_float_def
        item_routes_def norm_bool_def json_dumps_def lib_table_def
        strip_def strip_by_def is_space_def)

lemma strip_ids:
  "strip ''S1'' = ''S1''" "strip ''S2'' = ''S2''" "strip ''S3'' = ''S3''" "strip ''S4'' = ''S4''"
  by (simp_all add: strip_def strip_by_def is_space_def)

lemma id_chars:
  "list_all is_id_char ''S1''" "list_all is_id_char ''S2''"
  "list_all is_id_char ''S3''" "list_all is_id_char ''S4''"
  by (simp_all add: is_id_char_def is_word_def)

lemmas process_examples =
  process_item_not_object
  process_item_stop_item[of "''S1''", OF id_chars(1) _ _ strip_ids(1), simplified]
  process_item_stop_item[of "''S2''", OF id_chars(2) _ _ strip_ids(2), simplified]
  process_item_stop_item[of "''S3''", OF id_chars(3) _ _ strip_ids(3), simplified]
  process_item_stop_item[of "''S4''", OF id_chars(4) _ _ strip_ids(4), simplified]

subsection \<open>The import threshold\<close>

theorem import_stops_warnings_truncated:
  "item_errors lib_table 0 (replicate 11 PNone @ replicate 11 (stop_item ''S1''))
     = [RowNotObject 1, RowNotObject 2, RowNotObject 3, RowNotObject 4, RowNotObject 5,
        RowNotObject 6, RowNotObject 7, RowNotObject 8, RowNotObject 9, RowNotObject 10,
        RowNotObject 11] \<and>
   snd (import_stops lib_table None ''replace'' (replicate 11 PNone @ replicate 11 (stop_item ''S1'')))
     = Inr \<lparr> imported = 22, saved = 1, processed = 11,
             warnings = Some [RowNotObject 1, RowNotObject 2, RowNotObject 3, RowNotObject 4,
                              RowNotObject 5, RowNotObject 6, RowNotObject 7, RowNotObject 8,
                              RowNotObject 9, RowNotObject 10] \<rparr>"
proof -
  have errs: "item_errors lib_table 0 (replicate 11 PNone @ replicate 11 (stop_item ''S1''))
     = [RowNotObject 1, RowNotObject 2, RowNotObject 3, RowNotObject 4, RowNotObject 5,
        RowNotObject 6, RowNotObject 7, RowNotObject 8, RowNotObject 9, RowNotObject 10,
        RowNotObject 11]"
    by (simp add: eval_nat_numeral process_examples)
  have vals: "valid_items lib_table 0 (replicate 11 PNone @ replicate 11 (stop_item ''S1''))
     = replicate 11 (''S1'', [(Some ''stop_id'', PStr ''S1''), (Some ''name'', PStr ''Depot''),
                (Some ''latitude'', PStr ''12.000000''), (Some ''longitude'', PStr ''77.000000''),
                (Some ''routes'', PStr ''[]''), (Some ''accessibility'', PStr ''True'')])"
    by (simp add: eval_nat_numeral process_examples)
  have keep: "final_keep lib_table [] (replicate 11 PNone @ replicate 11 (stop_item ''S1''))
     = [(''S1'', [(Some ''stop_id'', PStr ''S1''), (Some ''name'', PStr ''Depot''),
                (Some ''latitude'', PStr ''12.000000''), (Some ''longitude'', PStr ''77.000000''),
                (Some ''routes'', PStr ''[]''), (Some ''accessibility'', PStr ''True'')])]"
    unfolding final_keep_def vals
    by (simp add: eval_nat_numeral initial_keep_def existing_pairs_def)
  show ?thesis
    unfolding import_stops_eq[of "''replace''", OF disjI1[OF refl]]
    by (simp add: errs vals keep)
qed

text \<open>
  Claim C7 (amended). For a valid mode, every batch item either validates or contributes
  exactly one per-row error. When the errors exceed half of the batch, \<open>import_stops\<close> fails
  with a validation error and the stops file is what it was. Otherwise the request
  succeeds and writes the rows kept in the dictionary, which holds under the id of every
  validated item a row validated under that id; the response carries the first ten per-row
  errors in batch order (none when there is no error).
\<close>

theorem import_stops_threshold:
  assumes "mode = ''replace'' \<or> mode = ''append''"
  shows "length (item_errors L 0 data) + length (valid_items L 0 data) = length data \<and>
    (length data < 2 * length (item_errors L 0 data) \<longrightarrow>
       import_stops L fs mode data =
         (fs, Inl (TooManyErrors (length (item_errors L 0 data)) (take 5 (item_errors L 0 data))))) \<and>
    (\<not> length data < 2 * length (item_errors L 0 data) \<longrightarrow>
       (\<exists>f res. import_stops L fs mode data = (Some f, Inr res) \<and>
          (\<exists>fns. f = write_csv L
            (map snd (final_keep L (if mode = ''append'' then read_csv fs else []) data)) fns) \<and>
          (\<forall>p \<in> set (valid_items L 0 data).
             \<exists>r \<in> set (map snd (final_keep L (if mode = ''append'' then read_csv fs else []) data)).
               (fst p, r) \<in> set (valid_items L 0 data) \<and> row_get r ''stop_id'' = PStr (fst p)) \<and>
          warnings res = (if item_errors L 0 data = [] then None
                          else Some (take 10 (item_errors L 0 data)))))"
proof (intro conjI impI)
  show "length (item_errors L 0 data) + length (valid_items L 0 data) = length data"
    by (rule errors_plus_valid)
next
  assume "length data < 2 * length (item_errors L 0 data)"
  then show "import_stops L fs mode data =
         (fs, Inl (TooManyErrors (length (item_errors L 0 data)) (take 5 (item_errors L 0 data))))"
    unfolding import_stops_eq[OF assms] by (simp add: Let_def)
next
  assume ok: "\<not> length data < 2 * length (item_errors L 0 data)"
  define existing where "existing = (if mode = ''append'' then read_csv fs else [])"
  define fns where "fns = (if existing = [] then map Some BUS_STOPS_FIELDS
                   else set_iter L (remdups (map Some BUS_STOPS_FIELDS @ keys_union existing)))"
  define f where "f = write_csv L (map snd (final_keep L existing data)) fns"
  define res where "res = \<lparr> imported = length data, saved = length (map snd (final_keep L existing data)),
                     processed = length (valid_items L 0 data),
                     warnings = (if item_errors L 0 data \<noteq> [] then Some (take 10 (item_errors L 0 data)) else None) \<rparr>"
  have eq: "import_stops L fs mode data = (Some f, Inr res)"
    unfolding import_stops_eq[OF assms] using ok
    by (simp add: Let_def f_def res_def fns_def existing_def)
  have l: "\<exists>fns. f = write_csv L (map snd (final_keep L existing data)) fns"
    unfolding f_def by blast
  have v: "\<forall>p \<in> set (valid_items L 0 data).
             \<exists>r \<in> set (map snd (final_keep L existing data)).
               (fst p, r) \<in> set (valid_items L 0 data) \<and> row_get r ''stop_id'' = PStr (fst p)"
    using final_keep_has_valid by blast
  have w: "warnings res = (if item_errors L 0 data = [] then None
                          else Some (take 10 (item_errors L 0 data)))"
    by (simp add: res_def)
  from eq l v w
  show "\<exists>f res. import_stops L fs mode data = (Some f, Inr res) \<and>
          (\<exists>fns. f = write_csv L
            (map snd (final_keep L (if mode = ''append'' then read_csv fs else []) data)) fns) \<and>
          (\<forall>p \<in> set (valid_items L 0 data).
             \<exists>r \<in> set (map snd (final_keep L (if mode = ''append'' then read_csv fs else []) data)).
               (fst p, r) \<in> set (valid_items L 0 data) \<and> row_get r ''stop_id'' = PStr (fst p)) \<and>
          warnings res = (if item_errors L 0 data = [] then None
                          else Some (take 10 (item_errors L 0 data)))"
    unfolding existing_def by blast
qed

theorem import_stops_threshold_witness:
  "item_errors lib_table 0 [PNone, PNone, stop_item ''S1''] = [RowNotObject 1, RowNotObject 2] \<and>
   import_stops lib_table None ''replace'' [PNone, PNone, stop_item ''S1'']
     = (None, Inl (TooManyErrors 2 [RowNotObject 1, RowNotObject 2])) \<and>
   item_errors lib_table 0 [stop_item ''S1'', PNone] = [RowNotObject 2] \<and>
   import_stops lib_table None ''replace'' [stop_item ''S1'', PNone]
     = (Some \<lparr> header = BUS_STOPS_FIELDS, lines = [stop_line ''S1''] \<rparr>,
        Inr \<lparr> imported = 2, saved = 1, processed = 1, warnings = Some [RowNotObject 2] \<rparr>)"
proof -
  have e1: "item_errors lib_table 0 [PNone, PNone, stop_item ''S1''] = [RowNotObject 1, RowNotObject 2]"
    by (simp add: process_examples)
  have e2: "item_errors lib_table 0 [stop_item ''S1'', PNone] = [RowNotObject 2]"
    by (simp add: process_examples)
  have v2: "valid_items lib_table 0 [stop_item ''S1'', PNone]
     = [(''S1'', [(Some ''stop_id'', PStr ''S1''), (Some ''name'', PStr ''Depot''),
                (Some ''latitude'', PStr ''12.000000''), (Some ''longitude'', PStr ''77.000000''),
                (Some ''routes'', PStr ''[]''), (Some ''accessibility'', PStr ''True'')])]"
    by (simp add: process_examples)
  from import_stops_threshold[of "''replace''" lib_table "[PNone, PNone, stop_item ''S1'']" None,
      OF disjI1[OF refl]]
  have r1: "import_stops lib_table None ''replace'' [PNone, PNone, stop_item ''S1'']
     = (None, Inl (TooManyErrors 2 [RowNotObject 1, RowNotObject 2]))"
    unfolding e1 by simp
  from import_stops_threshold[of "''replace''" lib_table "[stop_item ''S1'', PNone]" None,
      OF disjI1[OF refl]]
  obtain f res where c: "import_stops lib_table None ''replace'' [stop_item ''S1'', PNone] = (Some f, Inr res)"
      and w: "warnings res = Some [RowNotObject 2]"
    unfolding e2 by auto
  have r2: "import_stops lib_table None ''replace'' [stop_item ''S1'', PNone]
     = (Some \<lparr> header = BUS_STOPS_FIELDS, lines = [stop_line ''S1''] \<rparr>,
        Inr \<lparr> imported = 2, saved = 1, processed = 1, warnings = Some [RowNotObject 2] \<rparr>)"
  proof -
    have k2: "final_keep lib_table [] [stop_item ''S1'', PNone]
       = [(''S1'', [(Some ''stop_id'', PStr ''S1''), (Some ''name'', PStr ''Depot''),
                (Some ''latitude'', PStr ''12.000000''), (Some ''longitude'', PStr ''77.000000''),
                (Some ''routes'', PStr ''[]''), (Some ''accessibility'', PStr ''True'')])]"
      unfolding final_keep_def v2 by (simp add: initial_keep_def existing_pairs_def)
    have "import_stops lib_table None ''replace'' [stop_item ''S1'', PNone]
       = (Some (write_csv lib_table
                 [[(Some ''stop_id'', PStr ''S1''), (Some ''name'', PStr ''Depot''),
                   (Some ''latitude'', PStr ''12.000000''), (Some ''longitude'', PStr ''77.000000''),
                   (Some ''routes'', PStr ''[]''), (Some ''accessibility'', PStr ''True'')]]
                 (map Some BUS_STOPS_FIELDS)),
          Inr \<lparr> imported = 2, saved = 1, processed = 1, warnings = Some [RowNotObject 2] \<rparr>)"
      unfolding import_stops_eq[of "''replace''", OF disjI1[OF refl]] Let_def e2 v2
      by (simp add: k2)
    then show ?thesis
      by (simp add: write_csv_def BUS_STOPS_FIELDS_def stop_line_def cell_text_def key_text_def)
  qed
  from e1 r1 e2 r2 show ?thesis by simp
qed

subsection \<open>Append mode\<close>



subsection \<open>Headers of rewritten tables\<close>









subsection \<open>Writers and the global lock\<close>

lemma lock_inv_init: "lock_inv jobs (init jobs fs)"
  by (simp add: lock_inv_def init_def in_write_def)

lemma whole_files_init: "whole_files jobs fs (init jobs fs)"
  by (simp add: whole_files_def init_def)

lemma fire_keeps:
  assumes inv: "lock_inv jobs w" and wf: "whole_files jobs fs w" and f: "fire jobs w i = Some w'"
  shows "lock_inv jobs w' \<and> whole_files jobs fs w'"
proof -
  from f have i: "i < length jobs" "i < length (pcs w)"
    by (auto simp: fire_def split: if_splits)
  from inv have len: "length (pcs w) = length jobs"
    and lk: "\<And>j. j < length jobs \<Longrightarrow> in_write (pcs w ! j) \<longleftrightarrow> lock w = Some j"
    and tmp: "\<And>j k. j < length jobs \<Longrightarrow> pcs w ! j = Writing k \<Longrightarrow>
        k \<le> length (file_lines (snd (jobs ! j))) \<and>
        files w (tmp_path (fst (jobs ! j))) = Some (take k (file_lines (snd (jobs ! j))))"
    unfolding lock_inv_def by blast+
  define path where "path = fst (jobs ! i)"
  define content where "content = file_lines (snd (jobs ! i))"
  have job: "jobs ! i \<in> set jobs" using i(1) by simp
  have others: "\<not> in_write (pcs w ! j)" if "lock w = Some i" "j < length jobs" "j \<noteq> i" for j
    using lk[OF that(2)] that by simp
  have nw: "pcs w ! j \<noteq> Writing k" if "lock w = Some i" "j < length jobs" "j \<noteq> i" for j k
    using others[OF that] by (auto simp: in_write_def)
  show ?thesis
  proof (cases "pcs w ! i")
    case Idle
    with f i have free: "lock w = None" and w': "w' = w\<lparr> lock := Some i, pcs := (pcs w)[i := Locked] \<rparr>"
      by (auto simp: fire_def Let_def split: if_splits)
    have "lock_inv jobs w'"
      unfolding lock_inv_def w' using len lk tmp free i
      by (auto simp: nth_list_update in_write_def)
    moreover have "whole_files jobs fs w'"
      using wf unfolding whole_files_def w' by simp
    ultimately show ?thesis ..
  next
    case Locked
    with f i have w': "w' = w\<lparr> files := (files w)(tmp_path path \<mapsto> []),
                      pcs := (pcs w)[i := Writing 0] \<rparr>"
      by (auto simp: fire_def Let_def path_def)
    from Locked lk[OF i(1)] have held: "lock w = Some i" by (simp add: in_write_def)
    have "lock_inv jobs w'"
      unfolding lock_inv_def w' using len lk tmp held i nw[OF held]
      by (auto simp: nth_list_update in_write_def path_def)
    moreover have "whole_files jobs fs w'"
      using wf job unfolding whole_files_def w' path_def by auto
    ultimately show ?thesis ..
  next
    case (Writing k)
    from Writing lk[OF i(1)] have held: "lock w = Some i" by (simp add: in_write_def)
    from tmp[OF i(1) Writing] have k: "k \<le> length content"
      and t: "files w (tmp_path path) = Some (take k content)"
      by (simp_all add: content_def path_def)
    show ?thesis
    proof (cases "k < length content")
      case True
      with f i Writing have w': "w' = w\<lparr> files := (files w)(tmp_path path \<mapsto> take (Suc k) content),
                           pcs := (pcs w)[i := Writing (Suc k)] \<rparr>"
        by (auto simp: fire_def Let_def path_def content_def)
      have "lock_inv jobs w'"
        unfolding lock_inv_def w' using len lk tmp held i nw[OF held] True
        by (auto simp: nth_list_update in_write_def path_def content_def)
      moreover have "whole_files jobs fs w'"
        using wf job unfolding whole_files_def w' path_def by auto
      ultimately show ?thesis ..
    next
      case False
      with f i Writing have w': "w' = w\<lparr> files := ((files w)(path := files w (tmp_path path)))
                                       (tmp_path path := None),
                           pcs := (pcs w)[i := Releasing] \<rparr>"
        by (auto simp: fire_def Let_def path_def content_def)
      from False k t have full: "files w (tmp_path path) = Some content" by simp
      have "lock_inv jobs w'"
        unfolding lock_inv_def w' using len lk tmp held i nw[OF held]
        by (auto simp: nth_list_update in_write_def)
      moreover have "whole_files jobs fs w'"
        unfolding whole_files_def
      proof (intro allI impI)
        fix p assume p: "\<forall>job \<in> set jobs. p \<noteq> tmp_path (fst job)"
        with job have ne: "p \<noteq> tmp_path path" by (auto simp: path_def)
        show "files w' p = fs p \<or>
            (\<exists>job \<in> set jobs. fst job = p \<and> files w' p = Some (file_lines (snd job)))"
        proof (cases "p = path")
          case True
          with ne full have "files w' p = Some content" by (simp add: w')
          with True job show ?thesis
            unfolding path_def content_def by blast
        next
          case False
          with ne have "files w' p = files w p" by (simp add: w')
          with wf p show ?thesis unfolding whole_files_def by simp
        qed
      qed
      ultimately show ?thesis ..
    qed
  next
    case Releasing
    with f i have w': "w' = w\<lparr> lock := None, pcs := (pcs w)[i := Finished] \<rparr>"
      by (auto simp: fire_def Let_def)
    from Releasing lk[OF i(1)] have held: "lock w = Some i" by (simp add: in_write_def)
    have "lock_inv jobs w'"
      unfolding lock_inv_def w' using len lk tmp held i nw[OF held]
      by (auto simp: nth_list_update in_write_def)
    moreover have "whole_files jobs fs w'"
      using wf unfolding whole_files_def w' by simp
    ultimately show ?thesis ..
  next
    case Finished
    with f i show ?thesis by (simp add: fire_def Let_def)
  qed
qed

lemma run_keeps:
  "lock_inv jobs w \<Longrightarrow> whole_files jobs fs w \<Longrightarrow>
   lock_inv jobs (run jobs w sched) \<and> whole_files jobs fs (run jobs w sched)"
proof (induction sched arbitrary: w)
  case Nil
  then show ?case by (simp add: run_def)
next
  case (Cons i sched)
  show ?case
  proof (cases "fire jobs w i")
    case None
    with Cons show ?thesis by (simp add: run_def)
  next
    case (Some w')
    from fire_keeps[OF Cons.prems Some] Cons.IH[of w'] Some
    show ?thesis by (simp add: run_def)
  qed
qed

theorem writers_block_across_tables:
  "fst (two_jobs ! 0) \<noteq> fst (two_jobs ! 1) \<and>
   pcs (run two_jobs (init two_jobs Map.empty) [0]) = [Locked, Idle] \<and>
   fire two_jobs (run two_jobs (init two_jobs Map.empty) [0]) 1 = None"
  by (simp add: two_jobs_def run_def init_def fire_def file_lines_def)

text \<open>
  Claim C10 (amended). In every run of any number of writers, at most one writer is inside
  the locked region of \<open>_write_csv\<close>; while one is, no other writer can take a step,
  whether it writes the same table or another one (the lock is one global lock, not one
  per table); and every path that is not a temporary path holds, at every moment, what it
  held at the start or the whole file of some writer to that path, never a part of one.
\<close>

theorem write_csv_isolation:
  "(\<forall>i j. i < length jobs \<and> j < length jobs \<and>
          in_write (pcs (run jobs (init jobs fs) sched) ! i) \<and>
          in_write (pcs (run jobs (init jobs fs) sched) ! j) \<longrightarrow> i = j) \<and>
   (\<forall>i j. i < length jobs \<and> j < length jobs \<and> i \<noteq> j \<and>
          in_write (pcs (run jobs (init jobs fs) sched) ! i) \<longrightarrow>
          fire jobs (run jobs (init jobs fs) sched) j = None) \<and>
   (\<forall>p. (\<forall>job \<in> set jobs. p \<noteq> tmp_path (fst job)) \<longrightarrow>
        files (run jobs (init jobs fs) sched) p = fs p \<or>
        (\<exists>job \<in> set jobs. fst job = p \<and>
           files (run jobs (init jobs fs) sched) p = Some (file_lines (snd job))))"
proof -
  define w where "w = run jobs (init jobs fs) sched"
  from run_keeps[OF lock_inv_init whole_files_init, of jobs fs sched]
  have inv: "lock_inv jobs w" and wf: "whole_files jobs fs w"
    unfolding w_def by blast+
  from inv have len: "length (pcs w) = length jobs"
    and lk: "\<And>j. j < length jobs \<Longrightarrow> in_write (pcs w ! j) \<longleftrightarrow> lock w = Some j"
    unfolding lock_inv_def by blast+
  have one: "i = j" if "i < length jobs" "j < length jobs" "in_write (pcs w ! i)" "in_write (pcs w ! j)"
    for i j
    using lk[OF that(1)] lk[OF that(2)] that(3,4) by simp
  have blocked: "fire jobs w j = None"
    if "i < length jobs" "j < length jobs" "i \<noteq> j" "in_write (pcs w ! i)" for i j
  proof -
    from lk[OF that(1)] that(4) have held: "lock w = Some i" by simp
    with lk[OF that(2)] that(3) have "\<not> in_write (pcs w ! j)" by simp
    then have "pcs w ! j = Idle \<or> pcs w ! j = Finished"
      by (cases "pcs w ! j") (simp_all add: in_write_def)
    with held show ?thesis by (auto simp: fire_def Let_def)
  qed
  from one blocked wf show ?thesis
    unfolding w_def[symmetric] whole_files_def by blast
qed

theorem write_csv_isolation_witness:
  "pcs (run two_jobs (init two_jobs Map.empty) [0, 0, 0, 1]) = [Writing 1, Idle] \<and>
   fire two_jobs (run two_jobs (init two_jobs Map.empty) [0, 0, 0, 1]) 1 = None \<and>
   files (run two_jobs (init two_jobs Map.empty) [0, 0, 0, 1]) ''BusStops.csv'' = None \<and>
   files (run two_jobs (init two_jobs Map.empty) [0, 0, 0, 1]) (tmp_path ''BusStops.csv'')
     = Some [[''stop_id'']] \<and>
   pcs (run two_jobs (init two_jobs Map.empty) [0, 0, 0, 1, 0, 0, 0, 1]) = [Finished, Locked] \<and>
   files (run two_jobs (init two_jobs Map.empty) [0, 0, 0, 1, 0, 0, 0, 1]) ''BusStops.csv''
     = Some [[''stop_id''], [''S1'']] \<and>
   files (run two_jobs (init two_jobs Map.empty) [0, 0, 0, 1, 0, 0, 0, 1]) ''Routes.csv'' = None"
proof -
  have a: "pcs (run two_jobs (init two_jobs Map.empty) [0, 0, 0, 1]) = [Writing 1, Idle]"
    by (simp add: two_jobs_def run_def init_def fire_def file_lines_def)
  then have "in_write (pcs (run two_jobs (init two_jobs Map.empty) [0, 0, 0, 1]) ! 0)"
    by (simp add: in_write_def)
  moreover have "(0::nat) < length two_jobs" "(1::nat) < length two_jobs" "(0::nat) \<noteq> 1"
    by (simp_all add: two_jobs_def)
  ultimately have b: "fire two_jobs (run two_jobs (init two_jobs Map.empty) [0, 0, 0, 1]) 1 = None"
    using write_csv_isolation[of two_jobs Map.empty "[0, 0, 0, 1]"] by blast
  have c: "files (run two_jobs (init two_jobs Map.empty) [0, 0, 0, 1]) ''BusStops.csv'' = None"
    "files (run two_jobs (init two_jobs Map.empty) [0, 0, 0, 1]) (tmp_path ''BusStops.csv'')
     = Some [[''stop_id'']]"
    by (simp_all add: two_jobs_def run_def init_def fire_def file_lines_def tmp_path_def)
  have d: "pcs (run two_jobs (init two_jobs Map.empty) [0, 0, 0, 1, 0, 0, 0, 1]) = [Finished, Locked]"
    "files (run two_jobs (init two_jobs Map.empty) [0, 0, 0, 1, 0, 0, 0, 1]) ''BusStops.csv''
     = Some [[''stop_id''], [''S1'']]"
    "files (run two_jobs (init two_jobs Map.empty) [0, 0, 0, 1, 0, 0, 0, 1]) ''Routes.csv'' = None"
    by (simp_all add: two_jobs_def run_def init_def fire_def file_lines_def tmp_path_def)
  from a b c d show ?thesis by blast
qed

end
